theory Spec2Isabelle
  imports Main "HOL-Library.Word" "HOL-Library.Code_Target_Nat"
begin

unbundle bit_operations_syntax

chapter \<open>ROT500K family: PhonoShift and KanaShift\<close>

text \<open>
  A shallow embedding of \<^verbatim>\<open>ports/python/phonoshift.py\<close> and
  \<^verbatim>\<open>src-python/kanashift.py\<close>.

  \<^item> A Python \<^verbatim>\<open>str\<close> is a sequence of code points: a text is a list of
    naturals, one per scalar, and \<^verbatim>\<open>len\<close> is \<open>length\<close>.
  \<^item> Python integers are \<open>int\<close>; \<^verbatim>\<open>%\<close> is \<open>mod\<close> (both floor).
  \<^item> \<^verbatim>\<open>hashlib.pbkdf2_hmac\<close> and \<^verbatim>\<open>hmac.new\<close> are library primitives, taken
    as parameters. PBKDF2 output of length \<open>n\<close> is the first \<open>n\<close> bytes of a
    stream fixed by password, salt and iteration count, so the parameter gives the
    byte at each index; HMAC-SHA256 gives 32 bytes.
  \<^item> Functions that both modules define with the same text are embedded once.
\<close>

section \<open>Data model\<close>

type_synonym scalar = nat
type_synonym ustring = "nat list"
type_synonym byte = "8 word"
type_synonym pbkdf2_prf = "ustring \<Rightarrow> ustring \<Rightarrow> int \<Rightarrow> nat \<Rightarrow> byte"
type_synonym hmac_prf = "ustring \<Rightarrow> ustring \<Rightarrow> nat \<Rightarrow> byte"

definition ascii :: "string \<Rightarrow> ustring" where
  "ascii s = map of_char s"

section \<open>Core helpers (both modules)\<close>

definition is_separator :: "scalar \<Rightarrow> bool" where
  "is_separator ch \<longleftrightarrow> ch = 0x20 \<or> ch = 0x2D \<or> ch = 0x27"

definition is_digit :: "scalar \<Rightarrow> bool" where
  "is_digit ch \<longleftrightarrow> 0x30 \<le> ch \<and> ch \<le> 0x39"

definition is_fullwidth_digit :: "scalar \<Rightarrow> bool" where
  "is_fullwidth_digit ch \<longleftrightarrow> 0xFF10 \<le> ch \<and> ch \<le> 0xFF19"

definition is_ascii_upper :: "scalar \<Rightarrow> bool" where
  "is_ascii_upper ch \<longleftrightarrow> 0x41 \<le> ch \<and> ch \<le> 0x5A"

definition is_ascii_lower :: "scalar \<Rightarrow> bool" where
  "is_ascii_lower ch \<longleftrightarrow> 0x61 \<le> ch \<and> ch \<le> 0x7A"

definition to_lower_ascii :: "scalar \<Rightarrow> scalar" where
  "to_lower_ascii ch = (if is_ascii_upper ch then ch OR 0x20 else ch)"

definition to_upper_ascii :: "scalar \<Rightarrow> scalar" where
  "to_upper_ascii ch = (if is_ascii_lower ch then nat (int ch AND NOT 0x20) else ch)"

text \<open>
  \<^verbatim>\<open>str.upper()\<close> is only ever applied to members of \<^verbatim>\<open>"aeiou"\<close> and
  \<^verbatim>\<open>"bcdfghjklmnpqrstvwxyz"\<close> (and to words built from them), where it is the
  ASCII case change.
\<close>

definition str_upper :: "scalar \<Rightarrow> scalar" where
  "str_upper ch = (if is_ascii_lower ch then ch - 0x20 else ch)"

definition str_lower :: "scalar \<Rightarrow> scalar" where
  "str_lower ch = (if is_ascii_upper ch then ch + 0x20 else ch)"

text \<open>\<^verbatim>\<open>set_chars.find(ch)\<close>: the first index of \<open>ch\<close>, or \<open>-1\<close>.\<close>

primrec find_from :: "nat \<Rightarrow> ustring \<Rightarrow> scalar \<Rightarrow> int" where
  "find_from i [] ch = - 1"
| "find_from i (x # xs) ch = (if x = ch then int i else find_from (i + 1) xs ch)"

definition str_find :: "ustring \<Rightarrow> scalar \<Rightarrow> int" where
  "str_find set_chars ch = find_from 0 set_chars ch"

definition effective_shift :: "int \<Rightarrow> int \<Rightarrow> int" where
  "effective_shift shift set_size =
     (if set_size \<le> 1 then 0
      else let m = shift mod set_size
           in if m = 0 then (if shift \<ge> 0 then 1 else - 1) else m)"

definition rotate_in_set_no_zero :: "ustring \<Rightarrow> scalar \<Rightarrow> int \<Rightarrow> scalar" where
  "rotate_in_set_no_zero set_chars ch shift =
     (let n = int (length set_chars);
          idx = str_find set_chars ch
      in if idx < 0 then ch
         else let eff = effective_shift shift n;
                  j = (idx + eff) mod n
              in set_chars ! nat j)"

definition rotate_in_set_allow_zero :: "ustring \<Rightarrow> scalar \<Rightarrow> int \<Rightarrow> scalar" where
  "rotate_in_set_allow_zero set_chars ch shift =
     (let n = int (length set_chars);
          idx = str_find set_chars ch
      in if idx < 0 then ch
         else let m = shift mod n;
                  j = (idx + m) mod n
              in set_chars ! nat j)"

text \<open>
  \<^verbatim>\<open>derive_keystream\<close> (PhonoShift) and \<^verbatim>\<open>pbkdf2_keystream\<close> (KanaShift) have the
  same body: at least 32 bytes, at least one iteration.
\<close>

definition derive_keystream :: "pbkdf2_prf \<Rightarrow> ustring \<Rightarrow> ustring \<Rightarrow> int \<Rightarrow> nat \<Rightarrow> byte list" where
  "derive_keystream K password salt iterations need_bytes =
     (let need = (if need_bytes < 32 then 32 else need_bytes)
      in map (K password salt (max 1 iterations)) [0..<need])"

definition pbkdf2_keystream :: "pbkdf2_prf \<Rightarrow> ustring \<Rightarrow> ustring \<Rightarrow> int \<Rightarrow> nat \<Rightarrow> byte list" where
  "pbkdf2_keystream = derive_keystream"

definition hmac_sha256_bytes :: "hmac_prf \<Rightarrow> ustring \<Rightarrow> ustring \<Rightarrow> byte list" where
  "hmac_sha256_bytes H key_str msg_str = map (H key_str msg_str) [0..<32]"

text \<open>The cursor step of every keyed loop: \<^verbatim>\<open>kpos += 1; if kpos >= len(ks): kpos = 0\<close>.\<close>

definition next_kpos :: "byte list \<Rightarrow> nat \<Rightarrow> nat" where
  "next_kpos ks kpos = (if kpos + 1 \<ge> length ks then 0 else kpos + 1)"

section \<open>PhonoShift: core transform\<close>

definition VOW_LO :: ustring where "VOW_LO = ascii ''aeiou''"
definition CON_LO :: ustring where "CON_LO = ascii ''bcdfghjklmnpqrstvwxyz''"

text \<open>The accented vowels, as the source lists them (U+00E1, U+00E0, ...).\<close>

definition VOW_LO_PT :: ustring where
  "VOW_LO_PT = [0xE1, 0xE0, 0xE2, 0xE3, 0xE4, 0xE9, 0xE8, 0xEA, 0xEB, 0xED, 0xEC, 0xEE, 0xEF,
                0xF3, 0xF2, 0xF4, 0xF5, 0xF6, 0xFA, 0xF9, 0xFB, 0xFC]"

definition VOW_UP_PT :: ustring where
  "VOW_UP_PT = [0xC1, 0xC0, 0xC2, 0xC3, 0xC4, 0xC9, 0xC8, 0xCA, 0xCB, 0xCD, 0xCC, 0xCE, 0xCF,
                0xD3, 0xD2, 0xD4, 0xD5, 0xD6, 0xDA, 0xD9, 0xDB, 0xDC]"

definition CON_LO_PT :: ustring where "CON_LO_PT = [0xE7]"
definition CON_UP_PT :: ustring where "CON_UP_PT = [0xC7]"

text \<open>The body of the loop of \<^verbatim>\<open>transform_name_name_like_fpe\<close> once the shift is read.\<close>

definition fpe_char :: "scalar \<Rightarrow> int \<Rightarrow> scalar" where
  "fpe_char c shift =
     (if is_digit c then
        (let d = int c - 48;
             nd = (d + (shift mod 10) + 10) mod 10
         in nat (48 + nd))
      else
        let upper = (is_ascii_upper c \<or> c \<in> set VOW_UP_PT \<or> c \<in> set CON_UP_PT);
            lc = (if is_ascii_upper c then to_lower_ascii c else c)
        in if lc \<in> set VOW_LO then
             (let ch = rotate_in_set_no_zero VOW_LO lc shift
              in if upper then to_upper_ascii ch else ch)
           else if lc \<in> set CON_LO then
             (let ch = rotate_in_set_no_zero CON_LO lc shift
              in if upper then to_upper_ascii ch else ch)
           else if c \<in> set VOW_LO_PT then rotate_in_set_no_zero VOW_LO_PT c shift
           else if c \<in> set VOW_UP_PT then rotate_in_set_no_zero VOW_UP_PT c shift
           else if c \<in> set CON_LO_PT then rotate_in_set_no_zero CON_LO_PT c shift
           else if c \<in> set CON_UP_PT then rotate_in_set_no_zero CON_UP_PT c shift
           else c)"

fun fpe_loop :: "byte list \<Rightarrow> int \<Rightarrow> nat \<Rightarrow> ustring \<Rightarrow> ustring" where
  "fpe_loop ks direction kpos [] = []"
| "fpe_loop ks direction kpos (c # cs) =
     (if is_separator c then c # fpe_loop ks direction kpos cs
      else let shift = (uint (ks ! kpos) + 1) * direction
           in fpe_char c shift # fpe_loop ks direction (next_kpos ks kpos) cs)"

definition transform_name_name_like_fpe ::
    "pbkdf2_prf \<Rightarrow> ustring \<Rightarrow> ustring \<Rightarrow> int \<Rightarrow> ustring \<Rightarrow> int \<Rightarrow> ustring" where
  "transform_name_name_like_fpe K s password iterations salt direction =
     (if s = [] then s
      else let ks = derive_keystream K password salt iterations (length s + 64)
           in fpe_loop ks direction 0 s)"

section \<open>PhonoShift: punctuation shifting\<close>

definition P_OPEN :: ustring where "P_OPEN = [0xBF, 0xA1]"
definition P_END :: ustring where "P_END = ascii ''!?''"

definition is_shift_punct :: "scalar \<Rightarrow> bool" where
  "is_shift_punct ch \<longleftrightarrow> ch \<in> set P_OPEN \<or> ch \<in> set P_END"

text \<open>What the loop of \<^verbatim>\<open>punct_shift_apply\<close> writes to \<^verbatim>\<open>out[i]\<close>.\<close>

definition punct_shift_char :: "scalar \<Rightarrow> int \<Rightarrow> scalar" where
  "punct_shift_char c shift =
     (if c \<in> set P_OPEN then rotate_in_set_no_zero P_OPEN c shift
      else rotate_in_set_no_zero P_END c shift)"

fun punct_shift_loop :: "byte list \<Rightarrow> int \<Rightarrow> nat \<Rightarrow> ustring \<Rightarrow> ustring" where
  "punct_shift_loop ks direction kpos [] = []"
| "punct_shift_loop ks direction kpos (c # cs) =
     (if \<not> is_shift_punct c then c # punct_shift_loop ks direction kpos cs
      else let shift = (uint (ks ! kpos) + 1) * direction
           in punct_shift_char c shift # punct_shift_loop ks direction (next_kpos ks kpos) cs)"

definition punct_shift_apply ::
    "pbkdf2_prf \<Rightarrow> ustring \<Rightarrow> ustring \<Rightarrow> int \<Rightarrow> ustring \<Rightarrow> int \<Rightarrow> ustring" where
  "punct_shift_apply K s password iterations salt direction =
     (if s = [] then s
      else let need = length (filter is_shift_punct s)
           in if need = 0 then s
              else let punct_salt = salt @ ascii ''|PunctShift:v1'';
                       ks = derive_keystream K password punct_salt iterations (need + 64)
                   in punct_shift_loop ks direction 0 s)"

section \<open>PhonoShift: base API\<close>

definition rot500k_encrypt ::
    "pbkdf2_prf \<Rightarrow> ustring \<Rightarrow> ustring \<Rightarrow> int \<Rightarrow> ustring \<Rightarrow> bool \<Rightarrow> ustring" where
  "rot500k_encrypt K name password iterations salt shift_punctuation =
     (let r = transform_name_name_like_fpe K name password iterations salt 1
      in if shift_punctuation then punct_shift_apply K r password iterations salt 1 else r)"

definition rot500k_decrypt ::
    "pbkdf2_prf \<Rightarrow> ustring \<Rightarrow> ustring \<Rightarrow> int \<Rightarrow> ustring \<Rightarrow> bool \<Rightarrow> ustring" where
  "rot500k_decrypt K obfuscated password iterations salt shift_punctuation =
     (let s = (if shift_punctuation then punct_shift_apply K obfuscated password iterations salt (- 1)
               else obfuscated)
      in transform_name_name_like_fpe K s password iterations salt (- 1))"

section \<open>KanaShift: punctuation translation and keyed punctuation shift\<close>

definition PUNCT_ENC_MAP :: "(scalar \<times> scalar) list" where
  "PUNCT_ENC_MAP =
     [(0x3F, 0xFF1F), (0x21, 0xFF01), (0x2C, 0x3001), (0x2E, 0x3002), (0x3A, 0xFF1A),
      (0x3B, 0xFF1B), (0x28, 0xFF08), (0x29, 0xFF09), (0x5B, 0xFF3B), (0x5D, 0xFF3D),
      (0x7B, 0xFF5B), (0x7D, 0xFF5D), (0x22, 0xFF02)]"

definition PUNCT_DEC_MAP :: "(scalar \<times> scalar) list" where
  "PUNCT_DEC_MAP = map (\<lambda>(k, v). (v, k)) PUNCT_ENC_MAP"

text \<open>\<^verbatim>\<open>mp.get(c, c)\<close>\<close>

definition dict_get :: "(scalar \<times> scalar) list \<Rightarrow> scalar \<Rightarrow> scalar" where
  "dict_get mp c = (case map_of mp c of None \<Rightarrow> c | Some v \<Rightarrow> v)"

definition punct_translate :: "ustring \<Rightarrow> int \<Rightarrow> ustring" where
  "punct_translate s direction =
     (if s = [] then s
      else let mp = (if direction > 0 then PUNCT_ENC_MAP else PUNCT_DEC_MAP)
           in map (dict_get mp) s)"

definition P_END_JP :: ustring where "P_END_JP = [0xFF01, 0xFF1F]"
definition P_MID :: ustring where "P_MID = [0x3001, 0x3002, 0x30FB]"

definition is_shift_punct_jp :: "scalar \<Rightarrow> bool" where
  "is_shift_punct_jp ch \<longleftrightarrow> ch \<in> set P_END_JP \<or> ch \<in> set P_MID"

definition punct_shift_char_jp :: "scalar \<Rightarrow> int \<Rightarrow> scalar" where
  "punct_shift_char_jp c shift =
     (if c \<in> set P_END_JP then rotate_in_set_no_zero P_END_JP c shift
      else rotate_in_set_no_zero P_MID c shift)"

fun punct_shift_loop_jp :: "byte list \<Rightarrow> int \<Rightarrow> nat \<Rightarrow> ustring \<Rightarrow> ustring" where
  "punct_shift_loop_jp ks direction kpos [] = []"
| "punct_shift_loop_jp ks direction kpos (c # cs) =
     (if \<not> is_shift_punct_jp c then c # punct_shift_loop_jp ks direction kpos cs
      else let shift = (uint (ks ! kpos) AND 0xFF) * direction
           in punct_shift_char_jp c shift # punct_shift_loop_jp ks direction (next_kpos ks kpos) cs)"

definition punct_shift_apply_jp ::
    "pbkdf2_prf \<Rightarrow> ustring \<Rightarrow> ustring \<Rightarrow> int \<Rightarrow> ustring \<Rightarrow> int \<Rightarrow> ustring" where
  "punct_shift_apply_jp K s password iterations salt direction =
     (if s = [] then s
      else let need = length (filter is_shift_punct_jp s)
           in if need = 0 then s
              else let ks = pbkdf2_keystream K password (salt @ ascii ''|PunctShiftJP:v2'')
                              iterations (need + 64)
                   in punct_shift_loop_jp ks direction 0 s)"

section \<open>KanaShift family A: kana skin\<close>

definition P_VOW_LO :: ustring where "P_VOW_LO = ascii ''aeiou''"
definition P_VOW_UP :: ustring where "P_VOW_UP = ascii ''AEIOU''"
definition P_CON_LO :: ustring where "P_CON_LO = ascii ''bcdfghjklmnpqrstvwxyz''"
definition P_CON_UP :: ustring where "P_CON_UP = ascii ''BCDFGHJKLMNPQRSTVWXYZ''"

definition P_VOW_LO_PT :: ustring where
  "P_VOW_LO_PT = [0xE1, 0xE0, 0xE2, 0xE3, 0xE4, 0xE9, 0xE8, 0xEA, 0xEB, 0xED, 0xEC, 0xEE, 0xEF,
                  0xF3, 0xF2, 0xF4, 0xF5, 0xF6, 0xFA, 0xF9, 0xFB, 0xFC]"

definition P_VOW_UP_PT :: ustring where
  "P_VOW_UP_PT = [0xC1, 0xC0, 0xC2, 0xC3, 0xC4, 0xC9, 0xC8, 0xCA, 0xCB, 0xCD, 0xCC, 0xCE, 0xCF,
                  0xD3, 0xD2, 0xD4, 0xD5, 0xD6, 0xDA, 0xD9, 0xDB, 0xDC]"

definition C_CED_LO :: scalar where "C_CED_LO = 0x309E"
definition C_CED_UP :: scalar where "C_CED_UP = 0x30FE"

definition C_VOW_LO :: ustring where
  "C_VOW_LO = [0x3042, 0x3044, 0x3046, 0x3048, 0x304A]"

definition C_CON_LO :: ustring where
  "C_CON_LO = [0x3055, 0x3057, 0x3059, 0x305B, 0x305D, 0x305F, 0x3061, 0x3064, 0x3066, 0x3068,
               0x306A, 0x306B, 0x306C, 0x306D, 0x306E, 0x306F, 0x3072, 0x3075, 0x3078, 0x307B,
               0x307E]"

definition C_VOW_UP :: ustring where
  "C_VOW_UP = [0x30A2, 0x30A4, 0x30A6, 0x30A8, 0x30AA]"

definition C_CON_UP :: ustring where
  "C_CON_UP = [0x30B5, 0x30B7, 0x30B9, 0x30BB, 0x30BD, 0x30BF, 0x30C1, 0x30C4, 0x30C6, 0x30C8,
               0x30CA, 0x30CB, 0x30CC, 0x30CD, 0x30CE, 0x30CF, 0x30D2, 0x30D5, 0x30D8, 0x30DB,
               0x30DE]"

definition C_ACC_LO :: ustring where
  "C_ACC_LO = [0x304B, 0x304D, 0x304F, 0x3051, 0x3053, 0x307F, 0x3080, 0x3081, 0x3082, 0x3084,
               0x3086, 0x3088, 0x3089, 0x308A, 0x308B, 0x308C, 0x308D, 0x308F, 0x3092, 0x3093,
               0x3090, 0x3091, 0x3094, 0x309D]"

definition C_ACC_UP :: ustring where
  "C_ACC_UP = [0x30AB, 0x30AD, 0x30AF, 0x30B1, 0x30B3, 0x30DF, 0x30E0, 0x30E1, 0x30E2, 0x30E4,
               0x30E6, 0x30E8, 0x30E9, 0x30EA, 0x30EB, 0x30EC, 0x30ED, 0x30EF, 0x30F2, 0x30F3,
               0x30F0, 0x30F1, 0x30F4, 0x30FD]"

definition map_rotate :: "ustring \<Rightarrow> ustring \<Rightarrow> scalar \<Rightarrow> int \<Rightarrow> int \<Rightarrow> scalar option" where
  "map_rotate plain_set cipher_set ch shift dirn =
     (let n = int (length plain_set)
      in if n \<le> 1 then None
         else let idx = (if dirn > 0 then str_find plain_set ch else str_find cipher_set ch)
              in if idx < 0 then None
                 else let j = (idx + (shift mod n)) mod n
                      in Some (if dirn > 0 then cipher_set ! nat j else plain_set ! nat j))"

text \<open>\<^verbatim>\<open>map_rotate(...) or c\<close>: a result is one scalar, hence truthy.\<close>

definition or_else :: "scalar option \<Rightarrow> scalar \<Rightarrow> scalar" where
  "or_else r c = (case r of None \<Rightarrow> c | Some x \<Rightarrow> x)"

text \<open>The body of the loop of \<^verbatim>\<open>_skin_transform\<close> once the shift is read.\<close>

definition skin_char :: "scalar \<Rightarrow> int \<Rightarrow> int \<Rightarrow> scalar" where
  "skin_char c shift direction =
     (if direction > 0 \<and> is_digit c then
        (let d = int c - 48;
             nd = (d + (shift mod 10) + 10) mod 10
         in nat (0xFF10 + nd))
      else if \<not> direction > 0 \<and> (is_digit c \<or> is_fullwidth_digit c) then
        (let d = (if is_digit c then int c - 48 else int c - 0xFF10);
             nd = (d + (shift mod 10) + 10) mod 10
         in nat (48 + nd))
      else if direction > 0 then
        (if c \<in> set P_VOW_LO then or_else (map_rotate P_VOW_LO C_VOW_LO c shift 1) c
         else if c \<in> set P_CON_LO then or_else (map_rotate P_CON_LO C_CON_LO c shift 1) c
         else if c \<in> set P_VOW_UP then or_else (map_rotate P_VOW_UP C_VOW_UP c shift 1) c
         else if c \<in> set P_CON_UP then or_else (map_rotate P_CON_UP C_CON_UP c shift 1) c
         else if c \<in> set P_VOW_LO_PT then or_else (map_rotate P_VOW_LO_PT C_ACC_LO c shift 1) c
         else if c \<in> set P_VOW_UP_PT then or_else (map_rotate P_VOW_UP_PT C_ACC_UP c shift 1) c
         else if c = 0xE7 then C_CED_LO
         else if c = 0xC7 then C_CED_UP
         else c)
      else
        (if c \<in> set C_VOW_LO then or_else (map_rotate P_VOW_LO C_VOW_LO c shift (- 1)) c
         else if c \<in> set C_CON_LO then or_else (map_rotate P_CON_LO C_CON_LO c shift (- 1)) c
         else if c \<in> set C_VOW_UP then or_else (map_rotate P_VOW_UP C_VOW_UP c shift (- 1)) c
         else if c \<in> set C_CON_UP then or_else (map_rotate P_CON_UP C_CON_UP c shift (- 1)) c
         else if c \<in> set C_ACC_LO then or_else (map_rotate P_VOW_LO_PT C_ACC_LO c shift (- 1)) c
         else if c \<in> set C_ACC_UP then or_else (map_rotate P_VOW_UP_PT C_ACC_UP c shift (- 1)) c
         else if c = C_CED_LO then 0xE7
         else if c = C_CED_UP then 0xC7
         else c))"

fun skin_loop :: "byte list \<Rightarrow> int \<Rightarrow> nat \<Rightarrow> ustring \<Rightarrow> ustring" where
  "skin_loop ks direction kpos [] = []"
| "skin_loop ks direction kpos (c # cs) =
     (if is_separator c then c # skin_loop ks direction kpos cs
      else let shift = ((uint (ks ! kpos) AND 0xFF) + 1) * direction
           in skin_char c shift direction # skin_loop ks direction (next_kpos ks kpos) cs)"

definition skin_transform ::
    "pbkdf2_prf \<Rightarrow> ustring \<Rightarrow> ustring \<Rightarrow> int \<Rightarrow> ustring \<Rightarrow> int \<Rightarrow> ustring" where
  "skin_transform K text password iterations salt direction =
     (if text = [] then text
      else let ks = pbkdf2_keystream K password salt iterations (length text + 64)
           in skin_loop ks direction 0 text)"

definition kanashift_skin_encrypt ::
    "pbkdf2_prf \<Rightarrow> ustring \<Rightarrow> ustring \<Rightarrow> int \<Rightarrow> ustring \<Rightarrow> bool \<Rightarrow> ustring" where
  "kanashift_skin_encrypt K text password iterations salt shift_punctuation =
     (let r = skin_transform K text password iterations salt 1;
          r = punct_translate r 1
      in if shift_punctuation then punct_shift_apply_jp K r password iterations salt 1 else r)"

definition kanashift_skin_decrypt ::
    "pbkdf2_prf \<Rightarrow> ustring \<Rightarrow> ustring \<Rightarrow> int \<Rightarrow> ustring \<Rightarrow> bool \<Rightarrow> ustring" where
  "kanashift_skin_decrypt K obfuscated password iterations salt shift_punctuation =
     (let s = (if shift_punctuation
               then punct_shift_apply_jp K obfuscated password iterations salt (- 1)
               else obfuscated);
          s = punct_translate s (- 1)
      in skin_transform K s password iterations salt (- 1))"

section \<open>KanaShift family B: JP-native\<close>

definition is_kanji :: "scalar \<Rightarrow> bool" where
  "is_kanji ch \<longleftrightarrow> 0x4E00 \<le> ch \<and> ch \<le> 0x9FFF"

definition rotate_codepoint_range_no_zero :: "scalar \<Rightarrow> int \<Rightarrow> nat \<Rightarrow> nat \<Rightarrow> scalar" where
  "rotate_codepoint_range_no_zero ch shift lo hi =
     (if ch < lo \<or> ch > hi then ch
      else let n = int hi - int lo + 1;
               eff = effective_shift shift n;
               idx = int ch - int lo;
               j = (idx + eff) mod n
           in nat (int lo + j))"

definition build_kana_set :: "nat \<Rightarrow> nat \<Rightarrow> ustring" where
  "build_kana_set from_cp to_cp = [from_cp..<to_cp + 1]"

definition JP_HIRA :: ustring where "JP_HIRA = build_kana_set 0x3041 0x3096"
definition JP_KATA :: ustring where "JP_KATA = build_kana_set 0x30A1 0x30FA"

definition is_hiragana :: "scalar \<Rightarrow> bool" where
  "is_hiragana ch \<longleftrightarrow> 0x3041 \<le> ch \<and> ch \<le> 0x3096"

definition is_katakana :: "scalar \<Rightarrow> bool" where
  "is_katakana ch \<longleftrightarrow> 0x30A1 \<le> ch \<and> ch \<le> 0x30FA"

definition is_stable_jp_mark :: "scalar \<Rightarrow> bool" where
  "is_stable_jp_mark ch \<longleftrightarrow>
     ch = 0x30FC \<or> ch = 0x3005 \<or> ch = 0x309D \<or> ch = 0x309E \<or> ch = 0x30FD \<or> ch = 0x30FE"

text \<open>
  The local alphabets \<^verbatim>\<open>V\<close> and \<^verbatim>\<open>C\<close> of \<^verbatim>\<open>rotate_ascii_alpha_phono\<close> are the
  strings of \<^const>\<open>VOW_LO\<close> and \<^const>\<open>CON_LO\<close>.
\<close>

definition rotate_ascii_alpha_phono :: "scalar \<Rightarrow> int \<Rightarrow> scalar" where
  "rotate_ascii_alpha_phono ch shift =
     (if is_ascii_upper ch then
        (let low = to_lower_ascii ch
         in if low \<in> set VOW_LO then str_upper (rotate_in_set_allow_zero VOW_LO low shift)
            else if low \<in> set CON_LO then str_upper (rotate_in_set_allow_zero CON_LO low shift)
            else ch)
      else if is_ascii_lower ch then
        (if ch \<in> set VOW_LO then rotate_in_set_allow_zero VOW_LO ch shift
         else if ch \<in> set CON_LO then rotate_in_set_allow_zero CON_LO ch shift
         else ch)
      else ch)"

text \<open>The body of the loop of \<^verbatim>\<open>_jp_native_transform\<close> once the shift is read.\<close>

definition jp_char :: "scalar \<Rightarrow> int \<Rightarrow> int \<Rightarrow> scalar" where
  "jp_char c shift direction =
     (if is_ascii_upper c \<or> is_ascii_lower c then rotate_ascii_alpha_phono c shift
      else if direction > 0 \<and> is_digit c then
        (let d = int c - 48;
             eff = effective_shift shift 10;
             nd = (d + eff + 10) mod 10
         in nat (0xFF10 + nd))
      else if direction > 0 \<and> is_fullwidth_digit c then
        (let d = int c - 0xFF10;
             eff = effective_shift shift 10;
             nd = (d + eff + 10) mod 10
         in nat (0xFF10 + nd))
      else if \<not> direction > 0 \<and> (is_digit c \<or> is_fullwidth_digit c) then
        (let d = (if is_digit c then int c - 48 else int c - 0xFF10);
             eff = effective_shift shift 10;
             nd = (d + eff + 10) mod 10
         in nat (48 + nd))
      else if is_hiragana c then rotate_in_set_no_zero JP_HIRA c shift
      else if is_katakana c then rotate_in_set_no_zero JP_KATA c shift
      else if is_kanji c then rotate_codepoint_range_no_zero c shift 0x4E00 0x9FFF
      else c)"

fun jp_loop :: "byte list \<Rightarrow> int \<Rightarrow> nat \<Rightarrow> ustring \<Rightarrow> ustring" where
  "jp_loop ks direction kpos [] = []"
| "jp_loop ks direction kpos (c # cs) =
     (if is_separator c then c # jp_loop ks direction kpos cs
      else if is_stable_jp_mark c then c # jp_loop ks direction kpos cs
      else let shift = (uint (ks ! kpos) AND 0xFF) * direction
           in jp_char c shift direction # jp_loop ks direction (next_kpos ks kpos) cs)"

definition jp_native_transform ::
    "pbkdf2_prf \<Rightarrow> ustring \<Rightarrow> ustring \<Rightarrow> int \<Rightarrow> ustring \<Rightarrow> int \<Rightarrow> ustring" where
  "jp_native_transform K text password iterations salt direction =
     (if text = [] then text
      else let ks = pbkdf2_keystream K password (salt @ ascii ''|JPNative:v2|AsciiShift'')
                      iterations (length text + 64)
           in jp_loop ks direction 0 text)"

definition kanashift_jp_encrypt ::
    "pbkdf2_prf \<Rightarrow> ustring \<Rightarrow> ustring \<Rightarrow> int \<Rightarrow> ustring \<Rightarrow> bool \<Rightarrow> ustring" where
  "kanashift_jp_encrypt K text password iterations salt shift_punctuation =
     (let r = jp_native_transform K text password iterations salt 1;
          r = punct_translate r 1
      in if shift_punctuation then punct_shift_apply_jp K r password iterations salt 1 else r)"

definition kanashift_jp_decrypt ::
    "pbkdf2_prf \<Rightarrow> ustring \<Rightarrow> ustring \<Rightarrow> int \<Rightarrow> ustring \<Rightarrow> bool \<Rightarrow> ustring" where
  "kanashift_jp_decrypt K obfuscated password iterations salt shift_punctuation =
     (let s = (if shift_punctuation
               then punct_shift_apply_jp K obfuscated password iterations salt (- 1)
               else obfuscated);
          s = punct_translate s (- 1)
      in jp_native_transform K s password iterations salt (- 1))"

section \<open>Token verification (KT): shared tokenising loops\<close>

text \<open>
  \<^verbatim>\<open>build_plain_token_checks\<close>, \<^verbatim>\<open>attach_checks_to_cipher\<close> and
  \<^verbatim>\<open>strip_checks_from_tagged\<close> have the same loop in both modules; they differ in
  the module's own \<^verbatim>\<open>is_token_sep\<close> and in how one check is made. Each loop is
  embedded once, with the separator test (and the check maker) as an argument, and
  instantiated per module below. The closure \<^verbatim>\<open>flush\<close> and the variables it shares
  with the loop (\<^verbatim>\<open>tok\<close>, \<^verbatim>\<open>tok_idx\<close> and the output lists) are explicit state.
\<close>

datatype error = TokenCheckCountMismatch | UnusedChecksRemain

datatype kind = Digits | Alpha

record verified_result =
  ok :: bool
  val :: ustring

definition VerifiedResult :: "bool \<Rightarrow> ustring \<Rightarrow> verified_result" where
  "VerifiedResult b v = \<lparr>ok = b, val = v\<rparr>"

definition flush_checks ::
    "(nat \<Rightarrow> ustring \<Rightarrow> ustring) \<Rightarrow> ustring list \<times> ustring \<times> nat \<Rightarrow> ustring list \<times> ustring \<times> nat" where
  "flush_checks mk st =
     (case st of (checks, tok, tok_idx) \<Rightarrow>
        if tok = [] then (checks, tok, tok_idx)
        else (checks @ [mk tok_idx tok], [], tok_idx + 1))"

fun checks_loop ::
    "(scalar \<Rightarrow> bool) \<Rightarrow> (nat \<Rightarrow> ustring \<Rightarrow> ustring) \<Rightarrow> ustring list \<times> ustring \<times> nat \<Rightarrow> ustring
       \<Rightarrow> ustring list" where
  "checks_loop sep mk st [] = fst (flush_checks mk st)"
| "checks_loop sep mk st (c # cs) =
     (if sep c then checks_loop sep mk (flush_checks mk st) cs
      else case st of (checks, tok, tok_idx) \<Rightarrow> checks_loop sep mk (checks, tok @ [c], tok_idx) cs)"

definition flush_attach ::
    "ustring list \<Rightarrow> ustring list \<times> ustring \<times> nat \<Rightarrow> error + ustring list \<times> ustring \<times> nat" where
  "flush_attach checks st =
     (case st of (out, tok, tok_idx) \<Rightarrow>
        if tok = [] then Inr (out, tok, tok_idx)
        else if tok_idx \<ge> length checks then Inl TokenCheckCountMismatch
        else Inr (out @ [tok @ checks ! tok_idx], [], tok_idx + 1))"

fun attach_loop ::
    "(scalar \<Rightarrow> bool) \<Rightarrow> ustring list \<Rightarrow> ustring list \<times> ustring \<times> nat \<Rightarrow> ustring \<Rightarrow> error + ustring" where
  "attach_loop sep checks st [] =
     (case flush_attach checks st of
        Inl e \<Rightarrow> Inl e
      | Inr (out, tok, tok_idx) \<Rightarrow>
          if tok_idx \<noteq> length checks then Inl UnusedChecksRemain else Inr (concat out))"
| "attach_loop sep checks st (c # cs) =
     (if sep c then
        (case flush_attach checks st of
           Inl e \<Rightarrow> Inl e
         | Inr (out, tok, tok_idx) \<Rightarrow> attach_loop sep checks (out @ [[c]], tok, tok_idx) cs)
      else case st of (out, tok, tok_idx) \<Rightarrow> attach_loop sep checks (out, tok @ [c], tok_idx) cs)"

definition attach_checks_with :: "(scalar \<Rightarrow> bool) \<Rightarrow> ustring \<Rightarrow> ustring list \<Rightarrow> error + ustring" where
  "attach_checks_with sep cipher checks = attach_loop sep checks ([], [], 0) cipher"

text \<open>\<^verbatim>\<open>t[-n:]\<close> and \<^verbatim>\<open>t[:-n]\<close> are taken only where \<^verbatim>\<open>len(t) > n >= 1\<close>.\<close>

definition flush_strip ::
    "nat \<Rightarrow> ustring list \<times> ustring list \<times> ustring \<Rightarrow> (ustring list \<times> ustring list \<times> ustring) option" where
  "flush_strip n st =
     (case st of (base, given, tok) \<Rightarrow>
        if tok = [] then Some (base, given, tok)
        else if length tok \<le> n then None
        else Some (base @ [take (length tok - n) tok], given @ [drop (length tok - n) tok], []))"

fun strip_loop ::
    "(scalar \<Rightarrow> bool) \<Rightarrow> nat \<Rightarrow> ustring list \<times> ustring list \<times> ustring \<Rightarrow> ustring
       \<Rightarrow> (ustring \<times> ustring list) option" where
  "strip_loop sep n st [] =
     (case flush_strip n st of
        None \<Rightarrow> None
      | Some (base, given, tok) \<Rightarrow> Some (concat base, given))"
| "strip_loop sep n st (c # cs) =
     (if sep c then
        (case flush_strip n st of
           None \<Rightarrow> None
         | Some (base, given, tok) \<Rightarrow> strip_loop sep n (base @ [[c]], given, tok) cs)
      else case st of (base, given, tok) \<Rightarrow> strip_loop sep n (base, given, tok @ [c]) cs)"

definition strip_checks_with ::
    "(scalar \<Rightarrow> bool) \<Rightarrow> ustring \<Rightarrow> int \<Rightarrow> (ustring \<times> ustring list) option" where
  "strip_checks_with sep tagged check_chars_per_token =
     (let n = nat (max 1 check_chars_per_token)
      in strip_loop sep n ([], [], []) tagged)"

text \<open>Decimal text of an integer, as an f-string writes it.\<close>

fun str_of_nat :: "nat \<Rightarrow> ustring" where
  "str_of_nat n = (if n < 10 then [48 + n] else str_of_nat (n div 10) @ [48 + n mod 10])"

definition str_of_int :: "int \<Rightarrow> ustring" where
  "str_of_int i = (if i < 0 then 0x2D # str_of_nat (nat (- i)) else str_of_nat (nat i))"

section \<open>PhonoShift: ROT500KT\<close>

definition is_token_sep :: "scalar \<Rightarrow> bool" where
  "is_token_sep ch \<longleftrightarrow>
     ch = 0x20 \<or> ch = 0x2D \<or> ch = 0x27 \<or> ch = 0x2E \<or> ch = 0x2C \<or> ch = 0x21 \<or> ch = 0x3F
       \<or> ch = 0x3A \<or> ch = 0x3B \<or> ch = 0x09 \<or> ch = 0x0A \<or> ch = 0x0D"

definition is_all_digits_str :: "ustring \<Rightarrow> bool" where
  "is_all_digits_str s \<longleftrightarrow> s \<noteq> [] \<and> list_all is_digit s"

fun is_all_upper_loop :: "bool \<Rightarrow> ustring \<Rightarrow> bool" where
  "is_all_upper_loop has_letter [] = has_letter"
| "is_all_upper_loop has_letter (c # cs) =
     (if is_ascii_lower c then False
      else if is_ascii_upper c then is_all_upper_loop True cs
      else is_all_upper_loop has_letter cs)"

definition is_all_upper_ascii :: "ustring \<Rightarrow> bool" where
  "is_all_upper_ascii s = is_all_upper_loop False s"

definition CONSET :: ustring where "CONSET = ascii ''bcdfghjklmnpqrstvwxyz''"

definition token_digest ::
    "hmac_prf \<Rightarrow> ustring \<Rightarrow> ustring \<Rightarrow> int \<Rightarrow> nat \<Rightarrow> ustring \<Rightarrow> byte list" where
  "token_digest H password salt iterations token_index token_plain =
     (let msg = ascii ''PhonoShiftTok:v1'' @ ascii ''|'' @ salt @ ascii ''|'' @ str_of_int iterations
                @ ascii ''|'' @ str_of_int (int token_index) @ ascii ''|'' @ token_plain
      in hmac_sha256_bytes H password msg)"

definition make_token_check :: "ustring \<Rightarrow> kind \<Rightarrow> byte list \<Rightarrow> int \<Rightarrow> ustring" where
  "make_token_check token_plain knd mac_bytes check_chars_per_token =
     (let n = nat (max 1 check_chars_per_token);
          upper_mode = (knd = Alpha \<and> is_all_upper_ascii token_plain)
      in map (\<lambda>i. let b = uint (mac_bytes ! (i * 7 AND 31))
                  in if knd = Digits then nat (48 + b mod 10)
                     else let ch = CONSET ! nat (b mod int (length CONSET))
                          in if upper_mode then str_upper ch else ch)
             [0..<n])"

definition token_check ::
    "hmac_prf \<Rightarrow> ustring \<Rightarrow> ustring \<Rightarrow> int \<Rightarrow> int \<Rightarrow> nat \<Rightarrow> ustring \<Rightarrow> ustring" where
  "token_check H password salt iterations check_chars_per_token tok_idx t =
     (let knd = (if is_all_digits_str t then Digits else Alpha);
          mac = token_digest H password salt iterations tok_idx t
      in make_token_check t knd mac check_chars_per_token)"

definition build_plain_token_checks ::
    "hmac_prf \<Rightarrow> ustring \<Rightarrow> ustring \<Rightarrow> ustring \<Rightarrow> int \<Rightarrow> int \<Rightarrow> ustring list" where
  "build_plain_token_checks H plain password salt iterations check_chars_per_token =
     checks_loop is_token_sep (token_check H password salt iterations check_chars_per_token)
       ([], [], 0) plain"

definition attach_checks_to_cipher :: "ustring \<Rightarrow> ustring list \<Rightarrow> error + ustring" where
  "attach_checks_to_cipher = attach_checks_with is_token_sep"

definition strip_checks_from_tagged :: "ustring \<Rightarrow> int \<Rightarrow> (ustring \<times> ustring list) option" where
  "strip_checks_from_tagged = strip_checks_with is_token_sep"

definition rot500k_token_tagged ::
    "pbkdf2_prf \<Rightarrow> hmac_prf \<Rightarrow> ustring \<Rightarrow> ustring \<Rightarrow> int \<Rightarrow> ustring \<Rightarrow> int \<Rightarrow> bool \<Rightarrow> error + ustring" where
  "rot500k_token_tagged K H name password iterations salt check_chars_per_token shift_punctuation =
     (let cipher = transform_name_name_like_fpe K name password iterations salt 1;
          checks = build_plain_token_checks H name password salt iterations check_chars_per_token
      in case attach_checks_to_cipher cipher checks of
           Inl e \<Rightarrow> Inl e
         | Inr out \<Rightarrow>
             Inr (if shift_punctuation then punct_shift_apply K out password iterations salt 1
                  else out))"

definition rot500k_token_tagged_decrypt ::
    "pbkdf2_prf \<Rightarrow> hmac_prf \<Rightarrow> ustring \<Rightarrow> ustring \<Rightarrow> int \<Rightarrow> ustring \<Rightarrow> int \<Rightarrow> bool \<Rightarrow> verified_result" where
  "rot500k_token_tagged_decrypt K H tagged password iterations salt check_chars_per_token
       shift_punctuation =
     (let s = (if shift_punctuation then punct_shift_apply K tagged password iterations salt (- 1)
               else tagged)
      in case strip_checks_from_tagged s check_chars_per_token of
           None \<Rightarrow> VerifiedResult False []
         | Some (base_cipher, given_checks) \<Rightarrow>
             let plain = transform_name_name_like_fpe K base_cipher password iterations salt (- 1);
                 expected = build_plain_token_checks H plain password salt iterations
                              check_chars_per_token
             in if length expected \<noteq> length given_checks then VerifiedResult False []
                else if list_ex (\<lambda>(a, b). a \<noteq> b) (zip expected given_checks)
                then VerifiedResult False []
                else VerifiedResult True plain)"

section \<open>PhonoShift: ROT500KP and ROT500KV decoders\<close>

definition PT_LETTERS :: ustring where
  "PT_LETTERS = VOW_LO_PT @ VOW_UP_PT @ [0xE7, 0xC7]"

definition only_letters_ascii_or_pt :: "scalar \<Rightarrow> bool" where
  "only_letters_ascii_or_pt c \<longleftrightarrow> is_ascii_upper c \<or> is_ascii_lower c \<or> c \<in> set PT_LETTERS"

datatype case_style = Title | Upper | Lower

fun detect_case_loop :: "bool \<times> bool \<times> bool \<Rightarrow> ustring \<Rightarrow> bool \<times> bool \<times> bool" where
  "detect_case_loop st [] = st"
| "detect_case_loop (has_letter, any_upper, any_lower) (c # cs) =
     (if \<not> only_letters_ascii_or_pt c then detect_case_loop (has_letter, any_upper, any_lower) cs
      else if is_ascii_upper c then detect_case_loop (True, True, any_lower) cs
      else if is_ascii_lower c then detect_case_loop (True, any_upper, True) cs
      else detect_case_loop (True, True, True) cs)"

definition detect_case_style :: "ustring \<Rightarrow> case_style" where
  "detect_case_style plain =
     (case detect_case_loop (False, False, False) plain of
        (has_letter, any_upper, any_lower) \<Rightarrow>
          if \<not> has_letter then Title
          else if any_upper \<and> \<not> any_lower then Upper
          else if any_lower \<and> \<not> any_upper then Lower
          else Title)"

definition apply_case_style_to_word :: "ustring \<Rightarrow> case_style \<Rightarrow> ustring" where
  "apply_case_style_to_word w style =
     (if w = [] then w
      else if style = Upper then map str_upper w
      else if style = Lower then map str_lower w
      else let low = map str_lower w
           in map str_upper (take 1 low) @ drop 1 low)"

text \<open>\<^verbatim>\<open>phrase.split(" ")\<close> and \<^verbatim>\<open>" ".join(...)\<close>\<close>

fun str_split :: "scalar \<Rightarrow> ustring \<Rightarrow> ustring list" where
  "str_split sep [] = [[]]"
| "str_split sep (c # cs) =
     (if c = sep then [] # str_split sep cs
      else case str_split sep cs of
             [] \<Rightarrow> [[c]]
           | w # ws \<Rightarrow> (c # w) # ws)"

fun str_join :: "ustring \<Rightarrow> ustring list \<Rightarrow> ustring" where
  "str_join sep [] = []"
| "str_join sep [w] = w"
| "str_join sep (w # ws) = w @ sep @ str_join sep ws"

definition apply_case_style_to_phrase :: "ustring \<Rightarrow> case_style \<Rightarrow> ustring" where
  "apply_case_style_to_phrase phrase style =
     str_join (ascii '' '') (map (\<lambda>p. apply_case_style_to_word p style) (str_split 0x20 phrase))"

text \<open>
  The local \<^verbatim>\<open>CSet\<close> and \<^verbatim>\<open>VSet\<close> of \<^verbatim>\<open>make_pronounceable_word_from_bytes\<close>
  are the strings of \<^const>\<open>CONSET\<close> and \<^const>\<open>VOW_LO\<close>.
\<close>

definition make_pronounceable_word_from_bytes :: "byte list \<Rightarrow> nat \<Rightarrow> nat \<Rightarrow> ustring" where
  "make_pronounceable_word_from_bytes mac offset syllables =
     concat (map (\<lambda>i. let x = uint (mac ! ((offset + i) AND 31));
                          c_idx = x mod int (length CONSET);
                          v_idx = (x div int (length CONSET)) mod int (length VOW_LO)
                      in [CONSET ! nat c_idx, VOW_LO ! nat v_idx])
                 [0..<syllables])"

definition pick_punct_from_bytes :: "byte list \<Rightarrow> ustring" where
  "pick_punct_from_bytes mac = [ascii ''? '', ascii ''! ''] ! nat (uint (mac ! 0) mod 2)"

definition build_tag_prefix_for_plaintext ::
    "hmac_prf \<Rightarrow> ustring \<Rightarrow> ustring \<Rightarrow> int \<Rightarrow> ustring \<Rightarrow> ustring" where
  "build_tag_prefix_for_plaintext H plain password iterations salt =
     (let msg = ascii ''PhonoShiftTag:v1'' @ ascii ''|'' @ salt @ ascii ''|'' @ str_of_int iterations
                @ ascii ''|'' @ plain;
          mac = hmac_sha256_bytes H password msg;
          w1 = make_pronounceable_word_from_bytes mac 1 3;
          w2 = make_pronounceable_word_from_bytes mac 4 3;
          phrase = w1 @ ascii '' '' @ w2;
          punct = pick_punct_from_bytes mac;
          style = detect_case_style plain;
          phrase = apply_case_style_to_phrase phrase style
      in phrase @ punct)"

text \<open>
  The scan of \<^verbatim>\<open>split_tagged_prefix\<close>: \<open>pre\<close> holds \<^verbatim>\<open>tagged[:i]\<close>, the list
  \<^verbatim>\<open>tagged[i:]\<close>; the loop ends when fewer than two scalars are left.
\<close>

fun split_tagged_loop :: "ustring \<Rightarrow> ustring \<Rightarrow> (ustring \<times> ustring) option" where
  "split_tagged_loop pre (a # b # rest) =
     (if (a = 0x3F \<or> a = 0x21) \<and> b = 0x20 then
        (if rest \<noteq> [] then Some (pre @ [a], rest) else None)
      else split_tagged_loop (pre @ [a]) (b # rest))"
| "split_tagged_loop pre [a] = None"
| "split_tagged_loop pre [] = None"

definition split_tagged_prefix :: "ustring \<Rightarrow> (ustring \<times> ustring) option" where
  "split_tagged_prefix tagged = split_tagged_loop [] tagged"

definition rot500k_prefix_tagged_decrypt ::
    "pbkdf2_prf \<Rightarrow> hmac_prf \<Rightarrow> ustring \<Rightarrow> ustring \<Rightarrow> int \<Rightarrow> ustring \<Rightarrow> bool \<Rightarrow> verified_result" where
  "rot500k_prefix_tagged_decrypt K H tagged password iterations salt shift_punctuation =
     (let s = (if shift_punctuation then punct_shift_apply K tagged password iterations salt (- 1)
               else tagged)
      in case split_tagged_prefix s of
           None \<Rightarrow> VerifiedResult False []
         | Some (prefix_given, cipher) \<Rightarrow>
             let plain = transform_name_name_like_fpe K cipher password iterations salt (- 1);
                 expected = build_tag_prefix_for_plaintext H plain password iterations salt;
                 expected_no_space = butlast expected
             in if expected_no_space \<noteq> prefix_given then VerifiedResult False []
                else VerifiedResult True plain)"

definition rot500kv_safe_decrypt ::
    "pbkdf2_prf \<Rightarrow> hmac_prf \<Rightarrow> ustring \<Rightarrow> ustring \<Rightarrow> int \<Rightarrow> ustring \<Rightarrow> int \<Rightarrow> bool \<Rightarrow> verified_result" where
  "rot500kv_safe_decrypt K H obfuscated password iterations salt check_chars_per_token
       shift_punctuation =
     (let kt = rot500k_token_tagged_decrypt K H obfuscated password iterations salt
                 check_chars_per_token shift_punctuation
      in if ok kt then kt
         else let kp = rot500k_prefix_tagged_decrypt K H obfuscated password iterations salt
                         shift_punctuation
              in if ok kp then kp else VerifiedResult False [])"

definition rot500kv_decrypt ::
    "pbkdf2_prf \<Rightarrow> hmac_prf \<Rightarrow> ustring \<Rightarrow> ustring \<Rightarrow> int \<Rightarrow> ustring \<Rightarrow> int \<Rightarrow> bool \<Rightarrow> verified_result" where
  "rot500kv_decrypt K H obfuscated password iterations salt check_chars_per_token shift_punctuation =
     rot500kv_safe_decrypt K H obfuscated password iterations salt check_chars_per_token
       shift_punctuation"

section \<open>KanaShift: KT token verification\<close>

definition is_token_sep_jp :: "scalar \<Rightarrow> bool" where
  "is_token_sep_jp ch \<longleftrightarrow>
     ch = 0x20 \<or> ch = 0x3000 \<or> ch = 0x2D \<or> ch = 0x27 \<or> ch = 0x2E \<or> ch = 0x2C \<or> ch = 0x21
       \<or> ch = 0x3F \<or> ch = 0x3A \<or> ch = 0x3B
       \<or> ch = 0x3002 \<or> ch = 0x3001 \<or> ch = 0xFF01 \<or> ch = 0xFF1F \<or> ch = 0xFF1A \<or> ch = 0xFF1B
       \<or> ch = 0x30FB
       \<or> ch = 0x300C \<or> ch = 0x300D \<or> ch = 0x300E \<or> ch = 0x300F \<or> ch = 0xFF08 \<or> ch = 0xFF09
       \<or> ch = 0xFF3B \<or> ch = 0xFF3D \<or> ch = 0xFF5B \<or> ch = 0xFF5D
       \<or> ch = 0x09 \<or> ch = 0x0A \<or> ch = 0x0D"

definition is_all_digits_str_anywidth :: "ustring \<Rightarrow> bool" where
  "is_all_digits_str_anywidth s \<longleftrightarrow>
     (if s = [] then False else list_all (\<lambda>c. is_digit c \<or> is_fullwidth_digit c) s)"

definition KANA_CHK :: ustring where
  "KANA_CHK = [0x3055, 0x3057, 0x3059, 0x305B, 0x305D, 0x305F, 0x3061, 0x3064, 0x3066, 0x3068,
               0x306A, 0x306B, 0x306C, 0x306D, 0x306E, 0x306F, 0x3072, 0x3075, 0x3078, 0x307B,
               0x307E]"

definition make_token_check_jp :: "kind \<Rightarrow> byte list \<Rightarrow> int \<Rightarrow> ustring" where
  "make_token_check_jp knd mac check_chars_per_token =
     (let n = nat (max 1 check_chars_per_token)
      in map (\<lambda>i. let b = uint (mac ! (i * 7 AND 31))
                  in if knd = Digits then nat (0xFF10 + b mod 10)
                     else KANA_CHK ! nat (b mod int (length KANA_CHK)))
             [0..<n])"

definition token_digest_jp ::
    "hmac_prf \<Rightarrow> ustring \<Rightarrow> ustring \<Rightarrow> int \<Rightarrow> nat \<Rightarrow> ustring \<Rightarrow> ustring \<Rightarrow> byte list" where
  "token_digest_jp H password salt iterations token_index token_plain domain =
     (let msg = domain @ ascii ''|'' @ salt @ ascii ''|'' @ str_of_int iterations
                @ ascii ''|'' @ str_of_int (int token_index) @ ascii ''|'' @ token_plain
      in hmac_sha256_bytes H password msg)"

definition token_check_jp ::
    "hmac_prf \<Rightarrow> ustring \<Rightarrow> ustring \<Rightarrow> int \<Rightarrow> int \<Rightarrow> ustring \<Rightarrow> (ustring \<Rightarrow> ustring) option
       \<Rightarrow> nat \<Rightarrow> ustring \<Rightarrow> ustring" where
  "token_check_jp H password salt iterations check_chars_per_token domain norm_fn tok_idx t =
     (let knd = (if is_all_digits_str_anywidth t then Digits else Alpha);
          tnorm = (case norm_fn of Some f \<Rightarrow> f t | None \<Rightarrow> t);
          mac = token_digest_jp H password salt iterations tok_idx tnorm domain
      in make_token_check_jp knd mac check_chars_per_token)"

definition build_plain_token_checks_jp ::
    "hmac_prf \<Rightarrow> ustring \<Rightarrow> ustring \<Rightarrow> ustring \<Rightarrow> int \<Rightarrow> int \<Rightarrow> ustring
       \<Rightarrow> (ustring \<Rightarrow> ustring) option \<Rightarrow> ustring list" where
  "build_plain_token_checks_jp H plain password salt iterations check_chars_per_token domain norm_fn =
     checks_loop is_token_sep_jp
       (token_check_jp H password salt iterations check_chars_per_token domain norm_fn)
       ([], [], 0) plain"

definition attach_checks_to_cipher_jp :: "ustring \<Rightarrow> ustring list \<Rightarrow> error + ustring" where
  "attach_checks_to_cipher_jp = attach_checks_with is_token_sep_jp"

definition strip_checks_from_tagged_jp :: "ustring \<Rightarrow> int \<Rightarrow> (ustring \<times> ustring list) option" where
  "strip_checks_from_tagged_jp = strip_checks_with is_token_sep_jp"

definition TOK_DOMAIN_SKIN :: ustring where "TOK_DOMAIN_SKIN = ascii ''KanaShiftTok:v2''"
definition TOK_DOMAIN_JP :: ustring where "TOK_DOMAIN_JP = ascii ''KanaShiftTokJP:v2''"

type_synonym core_transform = "ustring \<Rightarrow> ustring \<Rightarrow> int \<Rightarrow> ustring \<Rightarrow> int \<Rightarrow> ustring"

definition family_token_tagged_encrypt ::
    "pbkdf2_prf \<Rightarrow> hmac_prf \<Rightarrow> ustring \<Rightarrow> ustring \<Rightarrow> int \<Rightarrow> ustring \<Rightarrow> int \<Rightarrow> bool
       \<Rightarrow> core_transform \<Rightarrow> ustring \<Rightarrow> (ustring \<Rightarrow> ustring) option \<Rightarrow> error + ustring" where
  "family_token_tagged_encrypt K H plain password iterations salt check_chars_per_token
       shift_punctuation core_transform_fn tok_domain norm_fn =
     (let cipher = core_transform_fn plain password iterations salt 1;
          checks = build_plain_token_checks_jp H plain password salt iterations
                     check_chars_per_token tok_domain norm_fn
      in case attach_checks_to_cipher_jp cipher checks of
           Inl e \<Rightarrow> Inl e
         | Inr out \<Rightarrow>
             let out = punct_translate out 1
             in Inr (if shift_punctuation then punct_shift_apply_jp K out password iterations salt 1
                     else out))"

definition family_token_tagged_decrypt ::
    "pbkdf2_prf \<Rightarrow> hmac_prf \<Rightarrow> ustring \<Rightarrow> ustring \<Rightarrow> int \<Rightarrow> ustring \<Rightarrow> int \<Rightarrow> bool
       \<Rightarrow> core_transform \<Rightarrow> ustring \<Rightarrow> (ustring \<Rightarrow> ustring) option \<Rightarrow> verified_result" where
  "family_token_tagged_decrypt K H tagged password iterations salt check_chars_per_token
       shift_punctuation core_transform_fn tok_domain norm_fn =
     (let s = (if shift_punctuation
               then punct_shift_apply_jp K tagged password iterations salt (- 1)
               else tagged);
          s = punct_translate s (- 1)
      in case strip_checks_from_tagged_jp s check_chars_per_token of
           None \<Rightarrow> VerifiedResult False []
         | Some (base_cipher, given_checks) \<Rightarrow>
             let plain = core_transform_fn base_cipher password iterations salt (- 1);
                 expected = build_plain_token_checks_jp H plain password salt iterations
                              check_chars_per_token tok_domain norm_fn
             in if length expected \<noteq> length given_checks then VerifiedResult False []
                else if list_ex (\<lambda>(a, b). a \<noteq> b) (zip expected given_checks)
                then VerifiedResult False []
                else VerifiedResult True plain)"

definition norm_token_skin :: "ustring \<Rightarrow> ustring" where "norm_token_skin tok = tok"
definition norm_token_identity :: "ustring \<Rightarrow> ustring" where "norm_token_identity tok = tok"

definition kanashift_skin_token_encrypt ::
    "pbkdf2_prf \<Rightarrow> hmac_prf \<Rightarrow> ustring \<Rightarrow> ustring \<Rightarrow> int \<Rightarrow> ustring \<Rightarrow> int \<Rightarrow> bool \<Rightarrow> error + ustring" where
  "kanashift_skin_token_encrypt K H text password iterations salt check_chars_per_token
       shift_punctuation =
     family_token_tagged_encrypt K H text password iterations salt check_chars_per_token
       shift_punctuation (skin_transform K) TOK_DOMAIN_SKIN (Some norm_token_skin)"

definition kanashift_skin_token_decrypt ::
    "pbkdf2_prf \<Rightarrow> hmac_prf \<Rightarrow> ustring \<Rightarrow> ustring \<Rightarrow> int \<Rightarrow> ustring \<Rightarrow> int \<Rightarrow> bool \<Rightarrow> verified_result" where
  "kanashift_skin_token_decrypt K H tagged password iterations salt check_chars_per_token
       shift_punctuation =
     family_token_tagged_decrypt K H tagged password iterations salt check_chars_per_token
       shift_punctuation (skin_transform K) TOK_DOMAIN_SKIN (Some norm_token_skin)"

definition kanashift_jp_token_encrypt ::
    "pbkdf2_prf \<Rightarrow> hmac_prf \<Rightarrow> ustring \<Rightarrow> ustring \<Rightarrow> int \<Rightarrow> ustring \<Rightarrow> int \<Rightarrow> bool \<Rightarrow> error + ustring" where
  "kanashift_jp_token_encrypt K H text password iterations salt check_chars_per_token
       shift_punctuation =
     family_token_tagged_encrypt K H text password iterations salt check_chars_per_token
       shift_punctuation (jp_native_transform K) TOK_DOMAIN_JP (Some norm_token_identity)"

definition kanashift_jp_token_decrypt ::
    "pbkdf2_prf \<Rightarrow> hmac_prf \<Rightarrow> ustring \<Rightarrow> ustring \<Rightarrow> int \<Rightarrow> ustring \<Rightarrow> int \<Rightarrow> bool \<Rightarrow> verified_result" where
  "kanashift_jp_token_decrypt K H tagged password iterations salt check_chars_per_token
       shift_punctuation =
     family_token_tagged_decrypt K H tagged password iterations salt check_chars_per_token
       shift_punctuation (jp_native_transform K) TOK_DOMAIN_JP (Some norm_token_identity)"

section \<open>Auxiliary predicates used in the statements and proofs\<close>

text \<open>Scalars that \<^const>\<open>fpe_char\<close> can change.\<close>

definition fpe_rotated :: "scalar \<Rightarrow> bool" where
  "fpe_rotated c \<longleftrightarrow> is_digit c \<or> c \<in> set VOW_LO \<or> c \<in> set CON_LO
      \<or> (is_ascii_upper c \<and> (c + 32 \<in> set VOW_LO \<or> c + 32 \<in> set CON_LO))
      \<or> c \<in> set VOW_LO_PT \<or> c \<in> set VOW_UP_PT"

text \<open>ASCII letters and digits, and everything from U+00C0 on.\<close>

definition wordy :: "scalar \<Rightarrow> bool" where
  "wordy x \<longleftrightarrow> is_digit x \<or> is_ascii_upper x \<or> is_ascii_lower x \<or> 0xC0 \<le> x"


text \<open>The fullwidth punctuation that \<^const>\<open>punct_translate\<close> maps back to ASCII.\<close>

definition is_fullwidth_punct :: "scalar \<Rightarrow> bool" where
  "is_fullwidth_punct c \<longleftrightarrow> c \<in> set (map fst PUNCT_DEC_MAP)"

text \<open>The first \<open>n\<close> bytes of a keystream are not 0.\<close>

definition nonzero_prefix :: "pbkdf2_prf \<Rightarrow> ustring \<Rightarrow> ustring \<Rightarrow> int \<Rightarrow> nat \<Rightarrow> bool" where
  "nonzero_prefix K password salt iterations n \<longleftrightarrow>
     list_all (\<lambda>k. K password salt (max 1 iterations) k \<noteq> 0) [0..<n]"

text \<open>Scalars the kana-skin decoder rewrites: the cipher alphabets, the cedilla markers and the fullwidth digits.\<close>

definition skin_cipher :: "scalar \<Rightarrow> bool" where
  "skin_cipher c \<longleftrightarrow> c \<in> set C_VOW_LO \<or> c \<in> set C_CON_LO \<or> c \<in> set C_VOW_UP \<or> c \<in> set C_CON_UP
      \<or> c \<in> set C_ACC_LO \<or> c \<in> set C_ACC_UP \<or> c = C_CED_LO \<or> c = C_CED_UP \<or> is_fullwidth_digit c"

text \<open>Scalars the kana-skin encoder rewrites.\<close>

definition skin_plain :: "scalar \<Rightarrow> bool" where
  "skin_plain c \<longleftrightarrow> is_digit c \<or> c \<in> set P_VOW_LO \<or> c \<in> set P_CON_LO \<or> c \<in> set P_VOW_UP \<or> c \<in> set P_CON_UP
      \<or> c \<in> set P_VOW_LO_PT \<or> c \<in> set P_VOW_UP_PT \<or> c = 0xE7 \<or> c = 0xC7"

text \<open>Plaintext scalars that the kana-skin decoder and the punctuation translation leave alone.\<close>

definition skin_plaintext_ok :: "scalar \<Rightarrow> bool" where
  "skin_plaintext_ok c \<longleftrightarrow> \<not> skin_cipher c \<and> \<not> is_fullwidth_punct c"

text \<open>Scalars the JP-native transform rewrites.\<close>

definition jp_class :: "scalar \<Rightarrow> bool" where
  "jp_class x \<longleftrightarrow> is_ascii_upper x \<or> is_ascii_lower x \<or> is_digit x \<or> is_fullwidth_digit x
      \<or> is_hiragana x \<or> is_katakana x \<or> is_kanji x"

text \<open>Scalars that \<^const>\<open>rotate_ascii_alpha_phono\<close> can change.\<close>

definition raap_rotated :: "scalar \<Rightarrow> bool" where
  "raap_rotated c \<longleftrightarrow> c \<in> set VOW_LO \<or> c \<in> set CON_LO
      \<or> (is_ascii_upper c \<and> (c + 32 \<in> set VOW_LO \<or> c + 32 \<in> set CON_LO))"

text \<open>Plaintext scalars that decoding does not fold to ASCII.\<close>

definition jp_plaintext_ok :: "scalar \<Rightarrow> bool" where
  "jp_plaintext_ok c \<longleftrightarrow> \<not> is_fullwidth_digit c \<and> \<not> is_fullwidth_punct c"

text \<open>Scalars at which the JP-native loop reads a key byte.\<close>

definition jp_consumes :: "scalar \<Rightarrow> bool" where
  "jp_consumes c \<longleftrightarrow> \<not> is_separator c \<and> \<not> is_stable_jp_mark c"

text \<open>
  Scalars that belong to a recognised alphabet of a family transform: a separator (or a
  stable JP mark), a digit, or a member of a rotation class. The kana skin reads
  different alphabets when encoding and when decoding.
\<close>

definition fpe_recognized :: "scalar \<Rightarrow> bool" where
  "fpe_recognized c \<longleftrightarrow> is_separator c \<or> is_digit c
      \<or> (if is_ascii_upper c then to_lower_ascii c else c) \<in> set VOW_LO
      \<or> (if is_ascii_upper c then to_lower_ascii c else c) \<in> set CON_LO
      \<or> c \<in> set VOW_LO_PT \<or> c \<in> set VOW_UP_PT \<or> c \<in> set CON_LO_PT \<or> c \<in> set CON_UP_PT"

definition skin_recognized :: "int \<Rightarrow> scalar \<Rightarrow> bool" where
  "skin_recognized direction c \<longleftrightarrow> is_separator c
      \<or> (if direction > 0 then skin_plain c else is_digit c \<or> skin_cipher c)"

definition jp_recognized :: "scalar \<Rightarrow> bool" where
  "jp_recognized c \<longleftrightarrow> is_separator c \<or> is_stable_jp_mark c \<or> jp_class c"

text \<open>
  The tokens of a text as the three tokenising loops see them (\<open>cur\<close> is the token
  being read), a check made for each token from a starting index, and the text that
  \<^const>\<open>attach_loop\<close> still has to emit.
\<close>

fun toks :: "(scalar \<Rightarrow> bool) \<Rightarrow> ustring \<Rightarrow> ustring \<Rightarrow> ustring list" where
  "toks sep cur [] = (if cur = [] then [] else [cur])"
| "toks sep cur (c # cs) =
     (if sep c then (if cur = [] then toks sep [] cs else cur # toks sep [] cs)
      else toks sep (cur @ [c]) cs)"

fun mk_from :: "(nat \<Rightarrow> ustring \<Rightarrow> ustring) \<Rightarrow> nat \<Rightarrow> ustring list \<Rightarrow> ustring list" where
  "mk_from mk i [] = []"
| "mk_from mk i (t # ts) = mk i t # mk_from mk (Suc i) ts"

fun weave :: "(scalar \<Rightarrow> bool) \<Rightarrow> ustring list \<Rightarrow> ustring \<Rightarrow> ustring \<Rightarrow> ustring" where
  "weave sep chk cur [] = (if cur = [] then [] else cur @ hd chk)"
| "weave sep chk cur (c # cs) =
     (if sep c then (if cur = [] then c # weave sep chk [] cs
                     else cur @ hd chk @ c # weave sep (tl chk) [] cs)
      else weave sep chk (cur @ [c]) cs)"

section \<open>Test vectors of the library primitives\<close>

text \<open>
  The first 80 bytes of PBKDF2-HMAC-SHA256 for the password \<^verbatim>\<open>pw\<close>, 1000 iterations
  and the salt \<^verbatim>\<open>NameFPE:v1\<close> with each layer's suffix, and the HMAC-SHA256 digests
  under the key \<^verbatim>\<open>pw\<close> of the two token messages of \<^verbatim>\<open>hello world\<close>, as
  \<^verbatim>\<open>hashlib\<close> and \<^verbatim>\<open>hmac\<close> return them. They instantiate the two parameters in
  the examples; every example reads at most 80 keystream bytes. Elsewhere the sample
  functions are 0.
\<close>

definition KS_PW_CORE :: "byte list" where
  "KS_PW_CORE =
     [44, 241, 114, 118, 196, 131, 74, 29, 156, 43, 177, 20, 89, 62, 159, 145,
      81, 209, 184, 141, 254, 205, 174, 254, 241, 115, 116, 87, 239, 108, 97, 62,
      98, 200, 146, 126, 55, 84, 49, 247, 16, 37, 242, 8, 170, 236, 211, 202,
      65, 17, 81, 195, 166, 201, 98, 116, 119, 163, 203, 23, 215, 156, 182, 148,
      43, 253, 245, 171, 129, 9, 141, 28, 151, 219, 105, 61, 201, 18, 152, 212]"

definition KS_PW_PUNCT :: "byte list" where
  "KS_PW_PUNCT =
     [78, 85, 44, 226, 75, 32, 220, 32, 172, 177, 5, 141, 61, 206, 173, 71,
      250, 75, 39, 226, 0, 107, 160, 218, 155, 80, 0, 140, 168, 149, 198, 214,
      232, 240, 78, 56, 40, 134, 251, 132, 65, 9, 99, 71, 205, 93, 62, 31,
      254, 135, 107, 22, 58, 161, 47, 159, 232, 84, 35, 53, 102, 64, 94, 188,
      31, 27, 30, 169, 123, 205, 129, 221, 254, 27, 46, 207, 202, 78, 103, 146]"

definition KS_PW_PUNCT_JP :: "byte list" where
  "KS_PW_PUNCT_JP =
     [92, 245, 245, 203, 76, 108, 223, 92, 245, 241, 9, 130, 15, 41, 62, 9,
      113, 221, 90, 75, 71, 136, 87, 107, 3, 178, 80, 121, 160, 193, 197, 73,
      170, 196, 225, 93, 82, 201, 168, 83, 187, 217, 22, 21, 219, 96, 136, 214,
      108, 28, 202, 138, 234, 136, 38, 205, 15, 80, 75, 140, 6, 113, 179, 209,
      193, 70, 26, 21, 1, 216, 208, 103, 113, 99, 144, 75, 106, 241, 50, 120]"

definition KS_PW_JP_NATIVE :: "byte list" where
  "KS_PW_JP_NATIVE =
     [52, 109, 187, 27, 152, 103, 149, 86, 89, 5, 227, 30, 225, 251, 222, 70,
      179, 57, 109, 48, 1, 118, 227, 238, 28, 220, 12, 196, 145, 193, 174, 63,
      234, 250, 53, 56, 53, 248, 113, 11, 209, 127, 23, 132, 218, 14, 144, 228,
      234, 9, 214, 197, 189, 149, 7, 204, 46, 234, 89, 41, 155, 173, 129, 44,
      34, 199, 127, 22, 130, 237, 206, 137, 48, 68, 29, 170, 51, 165, 183, 58]"

definition MAC_PW_TOKEN_0 :: "byte list" where
  "MAC_PW_TOKEN_0 =
     [22, 32, 95, 161, 186, 81, 210, 34, 152, 81, 70, 121, 219, 26, 81, 98,
      48, 136, 125, 156, 168, 7, 179, 10, 165, 240, 106, 240, 8, 106, 255, 229]"

definition MAC_PW_TOKEN_1 :: "byte list" where
  "MAC_PW_TOKEN_1 =
     [88, 32, 249, 206, 20, 2, 226, 87, 120, 201, 249, 236, 181, 240, 183, 212,
      16, 82, 0, 239, 44, 163, 85, 125, 106, 4, 15, 158, 36, 45, 29, 30]"

definition table_byte :: "byte list \<Rightarrow> nat \<Rightarrow> byte" where
  "table_byte tbl k = (if k < length tbl then tbl ! k else 0)"

definition sample_pbkdf2 :: pbkdf2_prf where
  "sample_pbkdf2 password salt iterations k =
     (if password = ascii ''pw'' \<and> iterations = 1000 then
        (if salt = ascii ''NameFPE:v1'' then table_byte KS_PW_CORE k
         else if salt = ascii ''NameFPE:v1|PunctShift:v1'' then table_byte KS_PW_PUNCT k
         else if salt = ascii ''NameFPE:v1|PunctShiftJP:v2'' then table_byte KS_PW_PUNCT_JP k
         else if salt = ascii ''NameFPE:v1|JPNative:v2|AsciiShift'' then table_byte KS_PW_JP_NATIVE k
         else 0)
      else 0)"

definition sample_hmac :: hmac_prf where
  "sample_hmac key_str msg_str k =
     (if key_str = ascii ''pw'' then
        (if msg_str = ascii ''PhonoShiftTok:v1|NameFPE:v1|1000|0|hello'' then table_byte MAC_PW_TOKEN_0 k
         else if msg_str = ascii ''PhonoShiftTok:v1|NameFPE:v1|1000|1|world'' then table_byte MAC_PW_TOKEN_1 k
         else 0)
      else 0)"

text \<open>The texts of the examples.\<close>

definition PW :: ustring where "PW = ascii ''pw''"
definition SALT :: ustring where "SALT = ascii ''NameFPE:v1''"

definition VAMOS_LA :: ustring where
  "VAMOS_LA = [0x56, 0x61, 0x6D, 0x6F, 0x73, 0x20, 0x6C, 0xE1, 0x21]"

definition KANRYO_MARU :: ustring where
  "KANRYO_MARU = [0x5B8C, 0x4E86, 0x3002]"

definition ABC_123 :: ustring where "ABC_123 = ascii ''ABC 123''"
definition KANRYO_DOT :: ustring where "KANRYO_DOT = [0x5B8C, 0x4E86, 0x2E]"

definition AT_A :: ustring where "AT_A = ascii ''@a''"

definition HELLO_WORLD :: ustring where "HELLO_WORLD = ascii ''hello world''"
definition HELLO_WORLD_TAGGED :: ustring where "HELLO_WORLD_TAGGED = ascii ''loxcacr ducxggf''"

chapter \<open>Verification\<close>

section \<open>Searching and rotating in an alphabet\<close>

lemma find_from_notin: "ch \<notin> set A \<Longrightarrow> find_from i A ch = - 1"
  by (induction A arbitrary: i) auto

lemma find_from_in:
  "ch \<in> set A \<Longrightarrow> \<exists>k<length A. find_from i A ch = int (i + k) \<and> A ! k = ch"
proof (induction A arbitrary: i)
  case Nil
  then show ?case by simp
next
  case (Cons x xs)
  show ?case
  proof (cases "x = ch")
    case True
    then show ?thesis by auto
  next
    case False
    with Cons.prems have "ch \<in> set xs" by simp
    from Cons.IH[OF this, of "i + 1"] obtain k
      where "k < length xs" "find_from (i + 1) xs ch = int (i + 1 + k)" "xs ! k = ch" by blast
    with False have "Suc k < length (x # xs) \<and> find_from i (x # xs) ch = int (i + Suc k)
        \<and> (x # xs) ! Suc k = ch" by simp
    then show ?thesis by blast
  qed
qed

lemma find_from_nth: "distinct A \<Longrightarrow> k < length A \<Longrightarrow> find_from i A (A ! k) = int (i + k)"
proof (induction A arbitrary: i k)
  case Nil
  then show ?case by simp
next
  case (Cons x xs)
  show ?case
  proof (cases k)
    case 0
    then show ?thesis by simp
  next
    case (Suc m)
    with Cons.prems have m: "m < length xs" and d: "distinct xs" and nx: "x \<notin> set xs" by auto
    from m nx have "xs ! m \<noteq> x" by (metis nth_mem)
    with Cons.IH[OF d m, of "i + 1"] Suc show ?thesis by auto
  qed
qed

lemma str_find_notin: "ch \<notin> set A \<Longrightarrow> str_find A ch = - 1"
  by (simp add: str_find_def find_from_notin)

lemma str_find_in:
  "ch \<in> set A \<Longrightarrow> 0 \<le> str_find A ch \<and> str_find A ch < int (length A) \<and> A ! nat (str_find A ch) = ch"
  using find_from_in[of ch A 0] by (auto simp: str_find_def)

lemma str_find_neg_iff: "str_find A ch < 0 \<longleftrightarrow> ch \<notin> set A"
  using str_find_in[of ch A] str_find_notin[of ch A] by auto

lemma str_find_nth: "distinct A \<Longrightarrow> i < length A \<Longrightarrow> str_find A (A ! i) = int i"
  using find_from_nth[of A i 0] by (simp add: str_find_def)

lemma effective_shift_neg:
  assumes "2 \<le> n" and "shift \<noteq> 0 \<or> n = 2"
  shows "(effective_shift shift n + effective_shift (- shift) n) mod n = 0"
proof (cases "shift mod n = 0")
  case True
  then have "(- shift) mod n = 0" by (simp add: mod_minus_eq dvd_eq_mod_eq_0[symmetric])
  with True assms show ?thesis by (auto simp: effective_shift_def Let_def)
next
  case False
  then have "(- shift) mod n = n - shift mod n" using assms(1)
    by (simp add: zmod_zminus1_eq_if)
  with False assms(1) show ?thesis by (auto simp: effective_shift_def Let_def)
qed

lemma rotate_no_zero_notin: "ch \<notin> set A \<Longrightarrow> rotate_in_set_no_zero A ch shift = ch"
  by (simp add: rotate_in_set_no_zero_def Let_def str_find_notin)

lemma rotate_no_zero_eq:
  assumes "ch \<in> set A"
  shows "rotate_in_set_no_zero A ch shift =
         A ! nat ((str_find A ch + effective_shift shift (int (length A))) mod int (length A))"
  using str_find_in[OF assms] by (simp add: rotate_in_set_no_zero_def Let_def)

lemma rotate_no_zero_in: 
  assumes "ch \<in> set A"
  shows "rotate_in_set_no_zero A ch shift \<in> set A"
proof -
  from assms have n: "0 < int (length A)" by (cases A) auto
  let ?j = "(str_find A ch + effective_shift shift (int (length A))) mod int (length A)"
  have "0 \<le> ?j" "?j < int (length A)" using n by simp_all
  then have "nat ?j < length A" by linarith
  then show ?thesis unfolding rotate_no_zero_eq[OF assms] by (rule nth_mem)
qed

lemma rotate_no_zero_inverse:
  assumes d: "distinct A" and m: "ch \<in> set A" and s: "shift \<noteq> 0 \<or> length A \<le> 2"
  shows "rotate_in_set_no_zero A (rotate_in_set_no_zero A ch shift) (- shift) = ch"
proof -
  let ?n = "int (length A)"
  let ?i = "str_find A ch"
  let ?j = "(?i + effective_shift shift ?n) mod ?n"
  from m have n: "0 < ?n" by (cases A) auto
  have j: "0 \<le> ?j" "?j < ?n" using n by simp_all
  then have jl: "nat ?j < length A" by linarith
  have r1: "rotate_in_set_no_zero A ch shift = A ! nat ?j" by (rule rotate_no_zero_eq[OF m])
  have fj: "str_find A (A ! nat ?j) = ?j" using str_find_nth[OF d jl] j by simp
  have in2: "A ! nat ?j \<in> set A" using jl by (rule nth_mem)
  have sum0: "(effective_shift shift ?n + effective_shift (- shift) ?n) mod ?n = 0"
  proof (cases "2 \<le> ?n")
    case True
    with s have "shift \<noteq> 0 \<or> ?n = 2" by linarith
    with True show ?thesis by (rule effective_shift_neg)
  next
    case False
    then show ?thesis by (simp add: effective_shift_def)
  qed
  have "(?j + effective_shift (- shift) ?n) mod ?n
        = (?i + (effective_shift shift ?n + effective_shift (- shift) ?n)) mod ?n"
    by (simp add: mod_add_left_eq add.assoc)
  also have "\<dots> = (?i mod ?n + (effective_shift shift ?n + effective_shift (- shift) ?n) mod ?n) mod ?n"
    by (simp only: mod_add_eq)
  also have "\<dots> = ?i" using str_find_in[OF m] sum0 by simp
  finally have bk: "(?j + effective_shift (- shift) ?n) mod ?n = ?i" .
  have "rotate_in_set_no_zero A (A ! nat ?j) (- shift) = A ! nat ?i"
    unfolding rotate_no_zero_eq[OF in2] fj bk ..
  with r1 str_find_in[OF m] show ?thesis by simp
qed

section \<open>PhonoShift: one scalar\<close>

lemma or_0x20_upper: "is_ascii_upper c \<Longrightarrow> c OR 0x20 = c + 32"
proof -
  assume "is_ascii_upper c"
  then have m: "c \<in> set [65..<91]" unfolding set_upt by (simp add: is_ascii_upper_def)
  have "\<forall>c\<in>set [65..<91::nat]. c OR 0x20 = c + 32" by code_simp
  with m show ?thesis by blast
qed

lemma and_not_0x20_lower: "is_ascii_lower c \<Longrightarrow> nat (int c AND NOT 0x20) = c - 32"
proof -
  assume "is_ascii_lower c"
  then have m: "c \<in> set [97..<123]" unfolding set_upt by (simp add: is_ascii_lower_def)
  have "\<forall>c\<in>set [97..<123::nat]. nat (int c AND NOT 0x20) = c - 32" by code_simp
  with m show ?thesis by blast
qed

lemma to_lower_ascii_eq: "to_lower_ascii c = (if is_ascii_upper c then c + 32 else c)"
  by (simp add: to_lower_ascii_def or_0x20_upper)

lemma to_upper_ascii_eq: "to_upper_ascii c = (if is_ascii_lower c then c - 32 else c)"
  by (cases "is_ascii_lower c") (simp_all only: to_upper_ascii_def and_not_0x20_lower if_True if_False)

lemma to_upper_ascii_str_upper: "to_upper_ascii c = str_upper c"
  by (simp add: to_upper_ascii_eq str_upper_def)

lemma VOW_LO_lower: "x \<in> set VOW_LO \<Longrightarrow> is_ascii_lower x"
  by (auto simp: VOW_LO_def ascii_def is_ascii_lower_def)

lemma CON_LO_lower: "x \<in> set CON_LO \<Longrightarrow> is_ascii_lower x"
  by (auto simp: CON_LO_def ascii_def is_ascii_lower_def)

lemma VOW_CON_disjoint: "x \<in> set VOW_LO \<Longrightarrow> x \<notin> set CON_LO"
  by (auto simp: VOW_LO_def CON_LO_def ascii_def)

lemma distinct_VOW_LO: "distinct VOW_LO" by (simp add: VOW_LO_def ascii_def)
lemma distinct_CON_LO: "distinct CON_LO" by (simp add: CON_LO_def ascii_def)
lemma distinct_VOW_LO_PT: "distinct VOW_LO_PT" by (simp add: VOW_LO_PT_def)
lemma distinct_VOW_UP_PT: "distinct VOW_UP_PT" by (simp add: VOW_UP_PT_def)

lemma VOW_LO_PT_range: "x \<in> set VOW_LO_PT \<Longrightarrow> 0xE0 \<le> x \<and> x \<le> 0xFC \<and> x \<noteq> 0xE7"
  by (auto simp: VOW_LO_PT_def)
lemma VOW_UP_PT_range: "x \<in> set VOW_UP_PT \<Longrightarrow> 0xC0 \<le> x \<and> x \<le> 0xDC \<and> x \<noteq> 0xC7"
  by (auto simp: VOW_UP_PT_def)

lemma ascii_lower_props:
  "is_ascii_lower x \<Longrightarrow> \<not> is_digit x \<and> \<not> is_ascii_upper x \<and> \<not> is_separator x
     \<and> x \<notin> set VOW_LO_PT \<and> x \<notin> set VOW_UP_PT \<and> x \<notin> set CON_LO_PT \<and> x \<notin> set CON_UP_PT"
  using VOW_LO_PT_range[of x] VOW_UP_PT_range[of x]
  by (auto simp: is_ascii_lower_def is_digit_def is_ascii_upper_def is_separator_def CON_LO_PT_def CON_UP_PT_def)

lemma ascii_upper_props:
  "is_ascii_upper x \<Longrightarrow> \<not> is_digit x \<and> \<not> is_ascii_lower x \<and> \<not> is_separator x
     \<and> x \<notin> set VOW_LO_PT \<and> x \<notin> set VOW_UP_PT \<and> x \<notin> set CON_LO_PT \<and> x \<notin> set CON_UP_PT
     \<and> x \<notin> set VOW_LO \<and> x \<notin> set CON_LO"
  using VOW_LO_PT_range[of x] VOW_UP_PT_range[of x] VOW_LO_lower[of x] CON_LO_lower[of x]
  by (auto simp: is_ascii_lower_def is_digit_def is_ascii_upper_def is_separator_def CON_LO_PT_def CON_UP_PT_def)

lemma VOW_LO_PT_props:
  "x \<in> set VOW_LO_PT \<Longrightarrow> \<not> is_digit x \<and> \<not> is_ascii_upper x \<and> \<not> is_ascii_lower x \<and> \<not> is_separator x
     \<and> x \<notin> set VOW_LO \<and> x \<notin> set CON_LO \<and> x \<notin> set VOW_UP_PT \<and> x \<notin> set CON_LO_PT \<and> x \<notin> set CON_UP_PT"
  using VOW_LO_PT_range[of x] VOW_UP_PT_range[of x] VOW_LO_lower[of x] CON_LO_lower[of x]
  by (auto simp: is_ascii_lower_def is_digit_def is_ascii_upper_def is_separator_def CON_LO_PT_def CON_UP_PT_def)

lemma VOW_UP_PT_props:
  "x \<in> set VOW_UP_PT \<Longrightarrow> \<not> is_digit x \<and> \<not> is_ascii_upper x \<and> \<not> is_ascii_lower x \<and> \<not> is_separator x
     \<and> x \<notin> set VOW_LO \<and> x \<notin> set CON_LO \<and> x \<notin> set VOW_LO_PT \<and> x \<notin> set CON_LO_PT \<and> x \<notin> set CON_UP_PT"
  using VOW_LO_PT_range[of x] VOW_UP_PT_range[of x] VOW_LO_lower[of x] CON_LO_lower[of x]
  by (auto simp: is_ascii_lower_def is_digit_def is_ascii_upper_def is_separator_def CON_LO_PT_def CON_UP_PT_def)

lemma digit_mod: "(d + s mod 10 + 10) mod 10 = (d + s) mod (10::int)"
  by (metis mod_add_right_eq mod_add_self2)

lemma digit_back: "0 \<le> d \<Longrightarrow> d < 10 \<Longrightarrow> ((d + s) mod 10 + - s) mod 10 = (d::int)"
  by (simp add: mod_diff_left_eq)

lemma fpe_char_digit:
  assumes "is_digit c"
  shows "fpe_char c s = nat (48 + (int c - 48 + s) mod 10)"
proof -
  show ?thesis by (simp only: fpe_char_def assms if_True Let_def digit_mod)
qed

lemma fpe_char_lower_vow:
  "c \<in> set VOW_LO \<Longrightarrow> fpe_char c s = rotate_in_set_no_zero VOW_LO c s"
  using ascii_lower_props[OF VOW_LO_lower, of c]
  by (simp add: fpe_char_def Let_def)

lemma fpe_char_lower_con:
  "c \<in> set CON_LO \<Longrightarrow> fpe_char c s = rotate_in_set_no_zero CON_LO c s"
  using ascii_lower_props[OF CON_LO_lower, of c] VOW_CON_disjoint[of c]
  by (auto simp add: fpe_char_def Let_def)

lemma fpe_char_upper_vow:
  "is_ascii_upper c \<Longrightarrow> c + 32 \<in> set VOW_LO \<Longrightarrow> fpe_char c s = rotate_in_set_no_zero VOW_LO (c + 32) s - 32"
  using ascii_upper_props[of c] VOW_LO_lower[OF rotate_no_zero_in[of "c+32" VOW_LO s]]
  by (simp add: fpe_char_def Let_def to_lower_ascii_eq to_upper_ascii_eq)

lemma fpe_char_upper_con:
  "is_ascii_upper c \<Longrightarrow> c + 32 \<in> set CON_LO \<Longrightarrow> fpe_char c s = rotate_in_set_no_zero CON_LO (c + 32) s - 32"
  using ascii_upper_props[of c] CON_LO_lower[OF rotate_no_zero_in[of "c+32" CON_LO s]] VOW_CON_disjoint[of "c+32"]
  by (auto simp add: fpe_char_def Let_def to_lower_ascii_eq to_upper_ascii_eq)

lemma fpe_char_lo_pt:
  "c \<in> set VOW_LO_PT \<Longrightarrow> fpe_char c s = rotate_in_set_no_zero VOW_LO_PT c s"
  using VOW_LO_PT_props[of c] by (simp add: fpe_char_def Let_def)

lemma fpe_char_up_pt:
  "c \<in> set VOW_UP_PT \<Longrightarrow> fpe_char c s = rotate_in_set_no_zero VOW_UP_PT c s"
  using VOW_UP_PT_props[of c] by (simp add: fpe_char_def Let_def)

lemma rotate_singleton: "rotate_in_set_no_zero [a] c s = c"
  by (simp add: rotate_in_set_no_zero_def Let_def effective_shift_def str_find_def)

lemma fpe_char_other: "\<not> fpe_rotated c \<Longrightarrow> fpe_char c s = c"
  by (auto simp: fpe_rotated_def fpe_char_def Let_def to_lower_ascii_eq rotate_singleton CON_LO_PT_def CON_UP_PT_def)

lemma fpe_char_inverse:
  assumes s: "s \<noteq> 0"
  shows "fpe_char (fpe_char c s) (- s) = c"
proof -
  have rs: "\<And>A. s \<noteq> 0 \<or> length A \<le> 2" using s by simp
  consider (dig) "is_digit c" | (lv) "c \<in> set VOW_LO" | (lc) "c \<in> set CON_LO"
    | (uv) "is_ascii_upper c" "c + 32 \<in> set VOW_LO" | (uc) "is_ascii_upper c" "c + 32 \<in> set CON_LO"
    | (pl) "c \<in> set VOW_LO_PT" | (pu) "c \<in> set VOW_UP_PT" | (other) "\<not> fpe_rotated c"
    unfolding fpe_rotated_def by blast
  then show ?thesis
  proof cases
    case dig
    define r where "r = (int c - 48 + s) mod 10"
    have nd: "0 \<le> r" "r < 10" by (simp_all add: r_def)
    then have d2: "is_digit (nat (48 + r))" unfolding is_digit_def by linarith
    have "int c - 48 \<ge> 0" "int c - 48 < 10" using dig by (auto simp: is_digit_def)
    then have "(r + - s) mod 10 = int c - 48" unfolding r_def by (rule digit_back)
    moreover have "int (nat (48 + r)) - 48 = r" using nd by simp
    ultimately have "fpe_char (nat (48 + r)) (- s) = c"
      unfolding fpe_char_digit[OF d2] by simp
    then show ?thesis unfolding fpe_char_digit[OF dig] r_def .
  next
    case lv
    then show ?thesis
      by (simp add: fpe_char_lower_vow rotate_no_zero_in rotate_no_zero_inverse[OF distinct_VOW_LO _ rs])
  next
    case lc
    then show ?thesis
      by (simp add: fpe_char_lower_con rotate_no_zero_in rotate_no_zero_inverse[OF distinct_CON_LO _ rs])
  next
    case uv
    let ?r = "rotate_in_set_no_zero VOW_LO (c + 32) s"
    have r: "?r \<in> set VOW_LO" using uv(2) by (rule rotate_no_zero_in)
    then have rl: "is_ascii_lower ?r" by (rule VOW_LO_lower)
    then have up: "is_ascii_upper (?r - 32)" "?r - 32 + 32 = ?r"
      by (auto simp: is_ascii_lower_def is_ascii_upper_def)
    have "fpe_char (?r - 32) (- s) = rotate_in_set_no_zero VOW_LO ?r (- s) - 32"
      using fpe_char_upper_vow[OF up(1), of "- s"] r up(2) by simp
    also have "\<dots> = c" using rotate_no_zero_inverse[OF distinct_VOW_LO uv(2) rs] by simp
    finally show ?thesis using uv by (simp add: fpe_char_upper_vow)
  next
    case uc
    let ?r = "rotate_in_set_no_zero CON_LO (c + 32) s"
    have r: "?r \<in> set CON_LO" using uc(2) by (rule rotate_no_zero_in)
    then have rl: "is_ascii_lower ?r" by (rule CON_LO_lower)
    then have up: "is_ascii_upper (?r - 32)" "?r - 32 + 32 = ?r"
      by (auto simp: is_ascii_lower_def is_ascii_upper_def)
    have "fpe_char (?r - 32) (- s) = rotate_in_set_no_zero CON_LO ?r (- s) - 32"
      using fpe_char_upper_con[OF up(1), of "- s"] r up(2) by simp
    also have "\<dots> = c" using rotate_no_zero_inverse[OF distinct_CON_LO uc(2) rs] by simp
    finally show ?thesis using uc by (simp add: fpe_char_upper_con)
  next
    case pl
    then show ?thesis
      by (simp add: fpe_char_lo_pt rotate_no_zero_in rotate_no_zero_inverse[OF distinct_VOW_LO_PT _ rs])
  next
    case pu
    then show ?thesis
      by (simp add: fpe_char_up_pt rotate_no_zero_in rotate_no_zero_inverse[OF distinct_VOW_UP_PT _ rs])
  next
    case other
    then show ?thesis by (simp add: fpe_char_other)
  qed
qed

section \<open>PhonoShift: the loops and the base API\<close>

lemma length_fpe_loop: "length (fpe_loop ks d k s) = length s"
  by (induction s arbitrary: k) (auto simp: Let_def)

lemma fpe_char_wordy: "fpe_char c s = c \<or> (wordy c \<and> wordy (fpe_char c s))"
proof -
  consider (dig) "is_digit c" | (lv) "c \<in> set VOW_LO" | (lc) "c \<in> set CON_LO"
    | (uv) "is_ascii_upper c" "c + 32 \<in> set VOW_LO" | (uc) "is_ascii_upper c" "c + 32 \<in> set CON_LO"
    | (pl) "c \<in> set VOW_LO_PT" | (pu) "c \<in> set VOW_UP_PT" | (other) "\<not> fpe_rotated c"
    unfolding fpe_rotated_def by blast
  then show ?thesis
  proof cases
    case dig
    have "0 \<le> (int c - 48 + s) mod 10" "(int c - 48 + s) mod 10 < 10" by simp_all
    then have "is_digit (nat (48 + (int c - 48 + s) mod 10))" unfolding is_digit_def by linarith
    with dig show ?thesis by (simp add: fpe_char_digit wordy_def)
  next
    case lv
    with VOW_LO_lower[OF rotate_no_zero_in[OF lv, of s]] VOW_LO_lower[OF lv]
    show ?thesis by (simp add: fpe_char_lower_vow wordy_def)
  next
    case lc
    with CON_LO_lower[OF rotate_no_zero_in[OF lc, of s]] CON_LO_lower[OF lc]
    show ?thesis by (simp add: fpe_char_lower_con wordy_def)
  next
    case uv
    from VOW_LO_lower[OF rotate_no_zero_in[OF uv(2), of s]]
    have "is_ascii_upper (rotate_in_set_no_zero VOW_LO (c + 32) s - 32)"
      by (auto simp: is_ascii_lower_def is_ascii_upper_def)
    with uv show ?thesis by (simp add: fpe_char_upper_vow wordy_def)
  next
    case uc
    from CON_LO_lower[OF rotate_no_zero_in[OF uc(2), of s]]
    have "is_ascii_upper (rotate_in_set_no_zero CON_LO (c + 32) s - 32)"
      by (auto simp: is_ascii_lower_def is_ascii_upper_def)
    with uc show ?thesis by (simp add: fpe_char_upper_con wordy_def)
  next
    case pl
    with VOW_LO_PT_range[OF rotate_no_zero_in[OF pl, of s]] VOW_LO_PT_range[OF pl]
    show ?thesis by (simp add: fpe_char_lo_pt wordy_def)
  next
    case pu
    with VOW_UP_PT_range[OF rotate_no_zero_in[OF pu, of s]] VOW_UP_PT_range[OF pu]
    show ?thesis by (simp add: fpe_char_up_pt wordy_def)
  next
    case other
    then show ?thesis by (simp add: fpe_char_other)
  qed
qed

lemma wordy_not_separator: "wordy x \<Longrightarrow> \<not> is_separator x"
  by (auto simp: wordy_def is_separator_def is_digit_def is_ascii_upper_def is_ascii_lower_def)

lemma fpe_char_separator: "is_separator (fpe_char c s) = is_separator c"
  using fpe_char_wordy[of c s] wordy_not_separator by auto

lemma fpe_loop_inverse: "fpe_loop ks (- 1) k (fpe_loop ks 1 k s) = s"
proof (induction s arbitrary: k)
  case Nil
  then show ?case by simp
next
  case (Cons c cs)
  show ?case
  proof (cases "is_separator c")
    case True
    then show ?thesis by (simp add: Cons.IH)
  next
    case False
    have nz: "uint (ks ! k) + 1 \<noteq> 0"
      by (metis add.commute add_nonneg_eq_0_iff uint_ge_0 zero_less_one_class.zero_le_one zero_neq_one)
    from False show ?thesis
      using fpe_char_inverse[OF nz, of c]
      by (simp add: Let_def fpe_char_separator Cons.IH)
  qed
qed

lemma derive_keystream_length: "length (derive_keystream K p s i n) = max n 32"
  by (simp add: derive_keystream_def Let_def)

lemma transform_fpe_length:
  "length (transform_name_name_like_fpe K s p i salt d) = length s"
  by (simp add: transform_name_name_like_fpe_def Let_def length_fpe_loop)

lemma transform_fpe_inverse:
  "transform_name_name_like_fpe K (transform_name_name_like_fpe K s p i salt 1) p i salt (- 1) = s"
proof (cases "s = []")
  case True
  then show ?thesis by (simp add: transform_name_name_like_fpe_def)
next
  case False
  then have ne: "fpe_loop ks 1 0 s \<noteq> []" for ks
    using length_fpe_loop[of ks 1 0 s] by (metis length_0_conv)
  show ?thesis using False ne
    by (simp add: transform_name_name_like_fpe_def Let_def length_fpe_loop fpe_loop_inverse)
qed

lemma distinct_P_OPEN: "distinct P_OPEN" by (simp add: P_OPEN_def)
lemma distinct_P_END: "distinct P_END" by (simp add: P_END_def ascii_def)
lemma P_OPEN_END_disjoint: "x \<in> set P_OPEN \<Longrightarrow> x \<notin> set P_END"
  by (auto simp: P_OPEN_def P_END_def ascii_def)

lemma punct_shift_char_is: "is_shift_punct c \<Longrightarrow> is_shift_punct (punct_shift_char c s)"
  by (auto simp: is_shift_punct_def punct_shift_char_def rotate_no_zero_in)

lemma punct_shift_char_inverse:
  "is_shift_punct c \<Longrightarrow> punct_shift_char (punct_shift_char c s) (- s) = c"
proof (cases "c \<in> set P_OPEN")
  case True
  have "length P_OPEN \<le> 2" by (simp add: P_OPEN_def)
  then show ?thesis using True
    by (simp add: punct_shift_char_def rotate_no_zero_in rotate_no_zero_inverse[OF distinct_P_OPEN])
next
  case False
  assume "is_shift_punct c"
  with False have m: "c \<in> set P_END" by (simp add: is_shift_punct_def)
  have l: "length P_END \<le> 2" by (simp add: P_END_def ascii_def)
  have "rotate_in_set_no_zero P_END c s \<in> set P_END" using m by (rule rotate_no_zero_in)
  then have "rotate_in_set_no_zero P_END c s \<notin> set P_OPEN" using P_OPEN_END_disjoint by blast
  then show ?thesis using False m l
    by (simp add: punct_shift_char_def rotate_no_zero_inverse[OF distinct_P_END])
qed

lemma punct_shift_loop_eq:
  "punct_shift_loop ks d k (c # cs) =
     (if \<not> is_shift_punct c then c # punct_shift_loop ks d k cs
      else punct_shift_char c ((uint (ks ! k) + 1) * d) # punct_shift_loop ks d (next_kpos ks k) cs)"
  by (simp add: Let_def)

lemma punct_shift_loop_length: "length (punct_shift_loop ks d k s) = length s"
  by (induction s arbitrary: k) (auto simp: Let_def)

lemma punct_shift_loop_filter:
  "length (filter is_shift_punct (punct_shift_loop ks d k s)) = length (filter is_shift_punct s)"
  by (induction s arbitrary: k) (auto simp only: punct_shift_loop.simps(1) punct_shift_loop_eq punct_shift_char_is filter.simps list.size split: if_splits)

lemma punct_shift_loop_inverse: "punct_shift_loop ks (- 1) k (punct_shift_loop ks 1 k s) = s"
proof (induction s arbitrary: k)
  case Nil
  then show ?case by simp
next
  case (Cons c cs)
  show ?case
  proof (cases "is_shift_punct c")
    case False
    then show ?thesis by (simp only: punct_shift_loop_eq Cons.IH if_True simp_thms)
  next
    case True
    then show ?thesis
      using punct_shift_char_inverse[OF True, of "uint (ks ! k) + 1"] punct_shift_char_is[OF True, of "uint (ks ! k) + 1"]
      by (simp add: punct_shift_loop_eq Cons.IH del: punct_shift_loop.simps)
  qed
qed

lemma punct_shift_apply_length: "length (punct_shift_apply K s p i salt d) = length s"
  by (simp add: punct_shift_apply_def Let_def punct_shift_loop_length)

lemma punct_shift_apply_inverse:
  "punct_shift_apply K (punct_shift_apply K s p i salt 1) p i salt (- 1) = s"
proof (cases "s = [] \<or> length (filter is_shift_punct s) = 0")
  case True
  then show ?thesis by (auto simp: punct_shift_apply_def Let_def)
next
  case False
  let ?ks = "derive_keystream K p (salt @ ascii ''|PunctShift:v1'') i (length (filter is_shift_punct s) + 64)"
  have e: "punct_shift_apply K s p i salt 1 = punct_shift_loop ?ks 1 0 s"
    using False by (simp add: punct_shift_apply_def Let_def)
  have ne: "punct_shift_loop ?ks 1 0 s \<noteq> []"
    using False punct_shift_loop_length[of ?ks 1 0 s] by (metis length_0_conv)
  have "punct_shift_apply K (punct_shift_loop ?ks 1 0 s) p i salt (- 1)
        = punct_shift_loop ?ks (- 1) 0 (punct_shift_loop ?ks 1 0 s)"
    using False ne by (simp add: punct_shift_apply_def Let_def punct_shift_loop_filter)
  then show ?thesis by (simp only: e punct_shift_loop_inverse)
qed

text \<open>
  C1. PhonoShift base mode round-trips: decrypting what \<^const>\<open>rot500k_encrypt\<close> produced,
  with the same password, iteration count, salt and punctuation flag, gives the text back,
  for every text and every parameter (whatever the key derivation returns).
\<close>

theorem rot500k_roundtrip:
  "rot500k_decrypt K (rot500k_encrypt K text password iterations salt shift_punct)
      password iterations salt shift_punct = text"
  by (simp add: rot500k_decrypt_def rot500k_encrypt_def Let_def punct_shift_apply_inverse
      transform_fpe_inverse)

theorem rot500k_roundtrip_witness:
  "rot500k_decrypt sample_pbkdf2 (rot500k_encrypt sample_pbkdf2 VAMOS_LA PW 1000 SALT True)
      PW 1000 SALT True = VAMOS_LA"
  by (rule rot500k_roundtrip)

text \<open>The ciphertext of that example under the sample keystream: \<^verbatim>\<open>Yiyic s\<close>, U+00ED, \<^verbatim>\<open>?\<close>.\<close>

lemma rot500k_encrypt_example:
  "rot500k_encrypt sample_pbkdf2 VAMOS_LA PW 1000 SALT True
     = [0x59, 0x69, 0x79, 0x69, 0x63, 0x20, 0x73, 0xED, 0x3F]"
  by code_simp

section \<open>The no-zero rotation and its inverse\<close>

text \<open>
  C5, as stated, fails at shift 0 in any alphabet of three or more scalars:
  \<^const>\<open>effective_shift\<close> turns 0 into \<open>+1\<close>, and so does the negated shift, which is 0
  again. In the three-scalar alphabet \<^const>\<open>P_MID\<close> the second rotation moves one
  step further instead of back.
\<close>

theorem rotate_no_zero_zero_shift_counterexample:
  "distinct P_MID \<and> 2 \<le> length P_MID \<and> 0x3001 \<in> set P_MID
   \<and> rotate_in_set_no_zero P_MID (rotate_in_set_no_zero P_MID 0x3001 0) (- 0) \<noteq> 0x3001
   \<and> (effective_shift 0 (int (length P_MID)) + effective_shift (- 0) (int (length P_MID)))
         mod int (length P_MID) \<noteq> 0"
  by (simp add: P_MID_def rotate_in_set_no_zero_def effective_shift_def str_find_def)

text \<open>
  C5, amended: for an alphabet \<open>A\<close> of pairwise distinct scalars with at least two
  elements, a scalar \<open>ch\<close> of \<open>A\<close>, and a shift that is not 0 (or any shift when
  \<open>A\<close> has exactly two elements), rotating by the shift and then by the negated shift
  gives \<open>ch\<close> back; equivalently the two effective shifts add up to 0 modulo the
  size of \<open>A\<close>.
\<close>

theorem rotate_no_zero_negated_shift:
  assumes "distinct A" and "2 \<le> length A" and "ch \<in> set A" and "shift \<noteq> 0 \<or> length A = 2"
  shows "rotate_in_set_no_zero A (rotate_in_set_no_zero A ch shift) (- shift) = ch
         \<and> (effective_shift shift (int (length A)) + effective_shift (- shift) (int (length A)))
               mod int (length A) = 0"
proof
  from assms(4) have "shift \<noteq> 0 \<or> length A \<le> 2" by auto
  with assms(1,3) show "rotate_in_set_no_zero A (rotate_in_set_no_zero A ch shift) (- shift) = ch"
    by (rule rotate_no_zero_inverse)
  from assms(2,4)
  show "(effective_shift shift (int (length A)) + effective_shift (- shift) (int (length A)))
          mod int (length A) = 0"
    by (intro effective_shift_neg) auto
qed

theorem rotate_no_zero_negated_shift_witness:
  "distinct VOW_LO \<and> 2 \<le> length VOW_LO \<and> 0x61 \<in> set VOW_LO \<and> (45::int) \<noteq> 0
   \<and> rotate_in_set_no_zero VOW_LO (rotate_in_set_no_zero VOW_LO 0x61 45) (- 45) = 0x61
   \<and> (effective_shift 45 (int (length VOW_LO)) + effective_shift (- 45) (int (length VOW_LO)))
         mod int (length VOW_LO) = 0"
proof -
  have h1: "distinct VOW_LO" by (simp add: VOW_LO_def ascii_def)
  have h2: "2 \<le> length VOW_LO" by (simp add: VOW_LO_def ascii_def)
  have h3: "0x61 \<in> set VOW_LO" by (simp add: VOW_LO_def ascii_def)
  have h4: "(45::int) \<noteq> 0 \<or> length VOW_LO = 2" by simp
  have h5: "(45::int) \<noteq> 0" by simp
  from rotate_no_zero_negated_shift[OF h1 h2 h3 h4] h1 h2 h3 h5 show ?thesis by blast
qed

section \<open>Kana skin: the paired alphabets\<close>

lemma acc_facts:
  "str_find C_ACC_LO 0x3094 = 22" "str_find C_ACC_LO 0x304B = 0" "int (length P_VOW_LO_PT) = 22"
  "0x3094 \<in> set C_ACC_LO" "0x304B \<in> set C_ACC_LO"
  "0x3094 \<notin> set C_VOW_LO" "0x3094 \<notin> set C_CON_LO" "0x3094 \<notin> set C_VOW_UP"
  "0x3094 \<notin> set C_CON_UP"
  "0x304B \<notin> set C_VOW_LO" "0x304B \<notin> set C_CON_LO" "0x304B \<notin> set C_VOW_UP"
  "0x304B \<notin> set C_CON_UP"
  "\<not> is_digit 0x3094" "\<not> is_fullwidth_digit 0x3094" "\<not> is_digit 0x304B"
  "\<not> is_fullwidth_digit 0x304B"
  by (simp_all add: C_VOW_LO_def C_CON_LO_def C_VOW_UP_def C_CON_UP_def C_ACC_LO_def
      P_VOW_LO_PT_def is_digit_def is_fullwidth_digit_def str_find_def)

lemma map_rotate_alias:
  "map_rotate P_VOW_LO_PT C_ACC_LO 0x3094 shift (- 1) = Some (P_VOW_LO_PT ! nat (shift mod 22))"
  "map_rotate P_VOW_LO_PT C_ACC_LO 0x304B shift (- 1) = Some (P_VOW_LO_PT ! nat (shift mod 22))"
  unfolding map_rotate_def Let_def acc_facts by simp_all

text \<open>
  C6. The code pairs the 22 accented vowels of \<^const>\<open>P_VOW_LO_PT\<close> and
  \<^const>\<open>P_VOW_UP_PT\<close> with the 24 kana of \<^const>\<open>C_ACC_LO\<close> and \<^const>\<open>C_ACC_UP\<close>:
  the cardinalities differ. \<^const>\<open>map_rotate\<close> reduces modulo the plain size in both
  directions, so on decoding the kana at index 22 (U+3094) is read as the kana at
  index 0 (U+304B), whatever the shift: under the sample keystream both decrypt to
  U+00FC, which encrypts to U+304B.
\<close>

theorem skin_accent_alphabets_cardinality:
  "length P_VOW_LO_PT = 22 \<and> length C_ACC_LO = 24
   \<and> length P_VOW_UP_PT = 22 \<and> length C_ACC_UP = 24
   \<and> skin_char 0x3094 shift (- 1) = skin_char 0x304B shift (- 1)
   \<and> kanashift_skin_decrypt sample_pbkdf2 [0x3094] PW 1000 SALT True = [0xFC]
   \<and> kanashift_skin_decrypt sample_pbkdf2 [0x304B] PW 1000 SALT True = [0xFC]
   \<and> kanashift_skin_encrypt sample_pbkdf2 [0xFC] PW 1000 SALT True = [0x304B]"
proof -
  have a: "skin_char 0x3094 shift (- 1) = skin_char 0x304B shift (- 1)"
    unfolding skin_char_def by (simp only: acc_facts map_rotate_alias) (simp add: or_else_def)
  have b: "kanashift_skin_decrypt sample_pbkdf2 [0x3094] PW 1000 SALT True = [0xFC]"
    by code_simp
  have c: "kanashift_skin_decrypt sample_pbkdf2 [0x304B] PW 1000 SALT True = [0xFC]"
    by code_simp
  have d: "kanashift_skin_encrypt sample_pbkdf2 [0xFC] PW 1000 SALT True = [0x304B]"
    by code_simp
  from a b c d show ?thesis
    by (simp add: P_VOW_LO_PT_def C_ACC_LO_def P_VOW_UP_PT_def C_ACC_UP_def)
qed

section \<open>KanaShift: punctuation layers\<close>

lemma uint_and_0xFF: "uint (b :: byte) AND 0xFF = uint b"
proof -
  have "(0xFF :: byte) = - 1" by simp
  then have "b AND 0xFF = b" by (simp only: and.right_neutral)
  moreover have "uint b AND 0xFF = uint (b AND 0xFF)" by (simp add: uint_and)
  ultimately show ?thesis by simp
qed

lemma punct_translate_length: "length (punct_translate s d) = length s"
  by (simp add: punct_translate_def Let_def)

lemma dict_get_enc_dec:
  "\<not> is_fullwidth_punct c \<Longrightarrow> dict_get PUNCT_DEC_MAP (dict_get PUNCT_ENC_MAP c) = c"
  by (simp add: is_fullwidth_punct_def dict_get_def PUNCT_DEC_MAP_def PUNCT_ENC_MAP_def)

lemma map_dict_get_inverse:
  "list_all (\<lambda>c. \<not> is_fullwidth_punct c) s
     \<Longrightarrow> map (dict_get PUNCT_DEC_MAP \<circ> dict_get PUNCT_ENC_MAP) s = s"
  by (induction s) (simp_all add: dict_get_enc_dec)

lemma punct_translate_inverse:
  "list_all (\<lambda>c. \<not> is_fullwidth_punct c) s \<Longrightarrow> punct_translate (punct_translate s 1) (- 1) = s"
  by (cases "s = []") (simp_all add: punct_translate_def Let_def map_dict_get_inverse)

lemma dict_get_enc_not_fw:
  "\<not> is_fullwidth_punct c \<Longrightarrow> is_fullwidth_punct (dict_get PUNCT_ENC_MAP c) \<longleftrightarrow> c \<in> set (map fst PUNCT_ENC_MAP)"
  by (simp add: is_fullwidth_punct_def dict_get_def PUNCT_DEC_MAP_def PUNCT_ENC_MAP_def)

lemma distinct_P_END_JP: "distinct P_END_JP" by (simp add: P_END_JP_def)
lemma distinct_P_MID: "distinct P_MID" by (simp add: P_MID_def)
lemma P_END_JP_MID_disjoint: "x \<in> set P_END_JP \<Longrightarrow> x \<notin> set P_MID"
  by (auto simp: P_END_JP_def P_MID_def)

lemma punct_shift_char_jp_is: "is_shift_punct_jp c \<Longrightarrow> is_shift_punct_jp (punct_shift_char_jp c s)"
  by (auto simp: is_shift_punct_jp_def punct_shift_char_jp_def rotate_no_zero_in)

lemma punct_shift_char_jp_inverse:
  assumes "is_shift_punct_jp c" and "s \<noteq> 0"
  shows "punct_shift_char_jp (punct_shift_char_jp c s) (- s) = c"
proof (cases "c \<in> set P_END_JP")
  case True
  then show ?thesis using assms(2)
    by (simp add: punct_shift_char_jp_def rotate_no_zero_in rotate_no_zero_inverse[OF distinct_P_END_JP])
next
  case False
  with assms(1) have m: "c \<in> set P_MID" by (simp add: is_shift_punct_jp_def)
  have "rotate_in_set_no_zero P_MID c s \<in> set P_MID" using m by (rule rotate_no_zero_in)
  then have "rotate_in_set_no_zero P_MID c s \<notin> set P_END_JP" using P_END_JP_MID_disjoint by blast
  then show ?thesis using False m assms(2)
    by (simp add: punct_shift_char_jp_def rotate_no_zero_inverse[OF distinct_P_MID])
qed

lemma punct_shift_loop_jp_eq:
  "punct_shift_loop_jp ks d k (c # cs) =
     (if \<not> is_shift_punct_jp c then c # punct_shift_loop_jp ks d k cs
      else punct_shift_char_jp c (uint (ks ! k) * d) # punct_shift_loop_jp ks d (next_kpos ks k) cs)"
  by (simp add: Let_def uint_and_0xFF)

lemma punct_shift_loop_jp_length: "length (punct_shift_loop_jp ks d k s) = length s"
  by (induction s arbitrary: k) (auto simp: Let_def)

lemma punct_shift_loop_jp_filter:
  "length (filter is_shift_punct_jp (punct_shift_loop_jp ks d k s)) = length (filter is_shift_punct_jp s)"
  by (induction s arbitrary: k)
     (auto simp only: punct_shift_loop_jp.simps(1) punct_shift_loop_jp_eq punct_shift_char_jp_is
        filter.simps list.size split: if_splits)

lemma punct_shift_loop_jp_inverse:
  assumes "k + length (filter is_shift_punct_jp s) \<le> m" and "m < length ks"
    and "\<forall>i<m. ks ! i \<noteq> 0"
  shows "punct_shift_loop_jp ks (- 1) k (punct_shift_loop_jp ks 1 k s) = s"
  using assms(1)
proof (induction s arbitrary: k)
  case Nil
  then show ?case by simp
next
  case (Cons c cs)
  show ?case
  proof (cases "is_shift_punct_jp c")
    case False
    with Cons.prems have "k + length (filter is_shift_punct_jp cs) \<le> m" by simp
    from Cons.IH[OF this] False show ?thesis
      by (simp only: punct_shift_loop_jp_eq if_True simp_thms)
  next
    case True
    with Cons.prems have km: "k < m" and rest: "Suc k + length (filter is_shift_punct_jp cs) \<le> m"
      by simp_all
    from km assms(2) have nk: "next_kpos ks k = Suc k" by (simp add: next_kpos_def)
    from km assms(3) have "ks ! k \<noteq> 0" by blast
    then have nz: "uint (ks ! k) \<noteq> 0" by (simp add: uint_0_iff)
    show ?thesis
      using punct_shift_char_jp_inverse[OF True nz] punct_shift_char_jp_is[OF True, of "uint (ks ! k)"]
        Cons.IH[OF rest] True
      by (simp add: punct_shift_loop_jp_eq nk del: punct_shift_loop_jp.simps)
  qed
qed

lemma derive_keystream_nth:
  "i < max n 32 \<Longrightarrow> derive_keystream K p s it n ! i = K p s (max 1 it) i"
  by (auto simp: derive_keystream_def Let_def)

lemma nonzero_prefix_nth:
  "nonzero_prefix K p s it n \<Longrightarrow> i < n \<Longrightarrow> K p s (max 1 it) i \<noteq> 0"
  by (simp add: nonzero_prefix_def list_all_iff)

lemma punct_shift_apply_jp_length: "length (punct_shift_apply_jp K s p i salt d) = length s"
  by (simp add: punct_shift_apply_jp_def Let_def punct_shift_loop_jp_length)

lemma punct_shift_apply_jp_inverse:
  assumes nz: "nonzero_prefix K p (salt @ ascii ''|PunctShiftJP:v2'') i (length s)"
  shows "punct_shift_apply_jp K (punct_shift_apply_jp K s p i salt 1) p i salt (- 1) = s"
proof (cases "s = [] \<or> length (filter is_shift_punct_jp s) = 0")
  case True
  then show ?thesis by (auto simp: punct_shift_apply_jp_def Let_def)
next
  case False
  let ?need = "length (filter is_shift_punct_jp s)"
  let ?ks = "pbkdf2_keystream K p (salt @ ascii ''|PunctShiftJP:v2'') i (?need + 64)"
  have e: "punct_shift_apply_jp K s p i salt 1 = punct_shift_loop_jp ?ks 1 0 s"
    using False by (simp add: punct_shift_apply_jp_def Let_def)
  have ne: "punct_shift_loop_jp ?ks 1 0 s \<noteq> []"
    using False punct_shift_loop_jp_length[of ?ks 1 0 s] by (metis length_0_conv)
  have e2: "punct_shift_apply_jp K (punct_shift_loop_jp ?ks 1 0 s) p i salt (- 1)
        = punct_shift_loop_jp ?ks (- 1) 0 (punct_shift_loop_jp ?ks 1 0 s)"
    using False ne by (simp add: punct_shift_apply_jp_def Let_def punct_shift_loop_jp_filter)
  have len: "length ?ks = max (?need + 64) 32"
    by (simp add: pbkdf2_keystream_def derive_keystream_length)
  have le: "?need \<le> length s" by simp
  have nzk: "\<forall>j<?need. ?ks ! j \<noteq> 0"
  proof (intro allI impI)
    fix j assume j: "j < ?need"
    then have "?ks ! j = K p (salt @ ascii ''|PunctShiftJP:v2'') (max 1 i) j"
      by (simp add: pbkdf2_keystream_def derive_keystream_nth)
    moreover from j le have "j < length s" by linarith
    ultimately show "?ks ! j \<noteq> 0" using nonzero_prefix_nth[OF nz] by simp
  qed
  have "punct_shift_loop_jp ?ks (- 1) 0 (punct_shift_loop_jp ?ks 1 0 s) = s"
    by (rule punct_shift_loop_jp_inverse[where m = ?need]) (use len nzk in simp_all)
  then show ?thesis by (simp only: e e2)
qed

section \<open>Kana skin: one scalar\<close>

lemma P_VOW_LO_range: "x \<in> set P_VOW_LO \<Longrightarrow> 0x61 \<le> x \<and> x \<le> 0x7A"
  by (auto simp: P_VOW_LO_def ascii_def)
lemma P_CON_LO_range: "x \<in> set P_CON_LO \<Longrightarrow> 0x61 \<le> x \<and> x \<le> 0x7A"
  by (auto simp: P_CON_LO_def ascii_def)
lemma P_VOW_UP_range: "x \<in> set P_VOW_UP \<Longrightarrow> 0x41 \<le> x \<and> x \<le> 0x5A"
  by (auto simp: P_VOW_UP_def ascii_def)
lemma P_CON_UP_range: "x \<in> set P_CON_UP \<Longrightarrow> 0x41 \<le> x \<and> x \<le> 0x5A"
  by (auto simp: P_CON_UP_def ascii_def)
lemma P_VOW_LO_PT_range: "x \<in> set P_VOW_LO_PT \<Longrightarrow> 0xE0 \<le> x \<and> x \<le> 0xFC \<and> x \<noteq> 0xE7"
  by (auto simp: P_VOW_LO_PT_def)
lemma P_VOW_UP_PT_range: "x \<in> set P_VOW_UP_PT \<Longrightarrow> 0xC0 \<le> x \<and> x \<le> 0xDC \<and> x \<noteq> 0xC7"
  by (auto simp: P_VOW_UP_PT_def)
lemma P_VOW_CON_LO_disjoint: "x \<in> set P_VOW_LO \<Longrightarrow> x \<notin> set P_CON_LO"
  by (auto simp: P_VOW_LO_def P_CON_LO_def ascii_def)
lemma P_VOW_CON_UP_disjoint: "x \<in> set P_VOW_UP \<Longrightarrow> x \<notin> set P_CON_UP"
  by (auto simp: P_VOW_UP_def P_CON_UP_def ascii_def)

lemma C_VOW_LO_range: "x \<in> set C_VOW_LO \<Longrightarrow> 0x3042 \<le> x \<and> x \<le> 0x304A"
  by (auto simp: C_VOW_LO_def)
lemma C_CON_LO_range: "x \<in> set C_CON_LO \<Longrightarrow> 0x3055 \<le> x \<and> x \<le> 0x307E"
  by (auto simp: C_CON_LO_def)
lemma C_ACC_LO_range: "x \<in> set C_ACC_LO \<Longrightarrow> (0x304B \<le> x \<and> x \<le> 0x3053) \<or> (0x307F \<le> x \<and> x \<le> 0x309D)"
  by (auto simp: C_ACC_LO_def)
lemma C_VOW_UP_range: "x \<in> set C_VOW_UP \<Longrightarrow> 0x30A2 \<le> x \<and> x \<le> 0x30AA"
  by (auto simp: C_VOW_UP_def)
lemma C_CON_UP_range: "x \<in> set C_CON_UP \<Longrightarrow> 0x30B5 \<le> x \<and> x \<le> 0x30DE"
  by (auto simp: C_CON_UP_def)
lemma C_ACC_UP_range: "x \<in> set C_ACC_UP \<Longrightarrow> (0x30AB \<le> x \<and> x \<le> 0x30B3) \<or> (0x30DF \<le> x \<and> x \<le> 0x30F4) \<or> x = 0x30FD"
  by (auto simp: C_ACC_UP_def)

lemma skin_distinct:
  "distinct P_VOW_LO" "distinct P_CON_LO" "distinct P_VOW_UP" "distinct P_CON_UP"
  "distinct P_VOW_LO_PT" "distinct P_VOW_UP_PT"
  "distinct C_VOW_LO" "distinct C_CON_LO" "distinct C_VOW_UP" "distinct C_CON_UP"
  "distinct C_ACC_LO" "distinct C_ACC_UP"
  by (simp_all add: P_VOW_LO_def P_CON_LO_def P_VOW_UP_def P_CON_UP_def P_VOW_LO_PT_def P_VOW_UP_PT_def
      C_VOW_LO_def C_CON_LO_def C_VOW_UP_def C_CON_UP_def C_ACC_LO_def C_ACC_UP_def ascii_def)

lemma skin_lengths:
  "length P_VOW_LO = 5" "length C_VOW_LO = 5" "length P_CON_LO = 21" "length C_CON_LO = 21"
  "length P_VOW_UP = 5" "length C_VOW_UP = 5" "length P_CON_UP = 21" "length C_CON_UP = 21"
  "length P_VOW_LO_PT = 22" "length C_ACC_LO = 24" "length P_VOW_UP_PT = 22" "length C_ACC_UP = 24"
  by (simp_all add: P_VOW_LO_def P_CON_LO_def P_VOW_UP_def P_CON_UP_def P_VOW_LO_PT_def P_VOW_UP_PT_def
      C_VOW_LO_def C_CON_LO_def C_VOW_UP_def C_CON_UP_def C_ACC_LO_def C_ACC_UP_def ascii_def)

lemma map_rotate_roundtrip:
  assumes dP: "distinct P" and dC: "distinct C" and n2: "2 \<le> length P" and le: "length P \<le> length C"
    and m: "c \<in> set P"
  shows "\<exists>r. map_rotate P C c s 1 = Some r \<and> r \<in> set C \<and> map_rotate P C r (- s) (- 1) = Some c"
proof -
  let ?n = "int (length P)"
  let ?i = "str_find P c"
  let ?j = "(?i + s mod ?n) mod ?n"
  have n: "0 < ?n" "\<not> ?n \<le> 1" using n2 by linarith+
  have i: "0 \<le> ?i" "?i < ?n" "P ! nat ?i = c" using str_find_in[OF m] by simp_all
  have j: "0 \<le> ?j" "?j < ?n" using n by simp_all
  then have jl: "nat ?j < length C" using le by linarith
  have e1: "map_rotate P C c s 1 = Some (C ! nat ?j)"
    using n i by (simp add: map_rotate_def Let_def)
  have rin: "C ! nat ?j \<in> set C" using jl by (rule nth_mem)
  have fj: "str_find C (C ! nat ?j) = ?j" using str_find_nth[OF dC jl] j by simp
  have "(?j + (- s) mod ?n) mod ?n = (?i + (s + - s)) mod ?n"
    by (metis (no_types, opaque_lifting) add.assoc mod_add_left_eq mod_add_right_eq)
  then have bk: "(?j + (- s) mod ?n) mod ?n = ?i" using i by simp
  have c2: "\<not> (0::int) < - 1" by simp
  have c3: "\<not> ?j < 0" using j(1) by linarith
  have e2: "map_rotate P C (C ! nat ?j) (- s) (- 1) = Some c"
    by (simp only: map_rotate_def Let_def fj n(2) c2 c3 if_False bk i(3))
  from e1 rin e2 show ?thesis by blast
qed

lemma plain_props:
  "x \<in> set P_VOW_LO \<Longrightarrow> \<not> is_digit x \<and> \<not> is_separator x"
  "x \<in> set P_CON_LO \<Longrightarrow> \<not> is_digit x \<and> \<not> is_separator x \<and> x \<notin> set P_VOW_LO"
  "x \<in> set P_VOW_UP \<Longrightarrow> \<not> is_digit x \<and> \<not> is_separator x \<and> x \<notin> set P_VOW_LO \<and> x \<notin> set P_CON_LO"
  "x \<in> set P_CON_UP \<Longrightarrow> \<not> is_digit x \<and> \<not> is_separator x \<and> x \<notin> set P_VOW_LO \<and> x \<notin> set P_CON_LO \<and> x \<notin> set P_VOW_UP"
  "x \<in> set P_VOW_LO_PT \<Longrightarrow> \<not> is_digit x \<and> \<not> is_separator x \<and> x \<notin> set P_VOW_LO \<and> x \<notin> set P_CON_LO \<and> x \<notin> set P_VOW_UP \<and> x \<notin> set P_CON_UP"
  "x \<in> set P_VOW_UP_PT \<Longrightarrow> \<not> is_digit x \<and> \<not> is_separator x \<and> x \<notin> set P_VOW_LO \<and> x \<notin> set P_CON_LO \<and> x \<notin> set P_VOW_UP \<and> x \<notin> set P_CON_UP \<and> x \<notin> set P_VOW_LO_PT"
  using P_VOW_LO_range[of x] P_CON_LO_range[of x] P_VOW_UP_range[of x] P_CON_UP_range[of x]
    P_VOW_LO_PT_range[of x] P_VOW_UP_PT_range[of x] P_VOW_CON_LO_disjoint[of x] P_VOW_CON_UP_disjoint[of x]
  by (auto simp: is_digit_def is_separator_def)

lemma cipher_props:
  "x \<in> set C_VOW_LO \<Longrightarrow> \<not> is_digit x \<and> \<not> is_fullwidth_digit x \<and> \<not> is_separator x"
  "x \<in> set C_CON_LO \<Longrightarrow> \<not> is_digit x \<and> \<not> is_fullwidth_digit x \<and> \<not> is_separator x \<and> x \<notin> set C_VOW_LO"
  "x \<in> set C_VOW_UP \<Longrightarrow> \<not> is_digit x \<and> \<not> is_fullwidth_digit x \<and> \<not> is_separator x \<and> x \<notin> set C_VOW_LO \<and> x \<notin> set C_CON_LO"
  "x \<in> set C_CON_UP \<Longrightarrow> \<not> is_digit x \<and> \<not> is_fullwidth_digit x \<and> \<not> is_separator x \<and> x \<notin> set C_VOW_LO \<and> x \<notin> set C_CON_LO \<and> x \<notin> set C_VOW_UP"
  "x \<in> set C_ACC_LO \<Longrightarrow> \<not> is_digit x \<and> \<not> is_fullwidth_digit x \<and> \<not> is_separator x \<and> x \<notin> set C_VOW_LO \<and> x \<notin> set C_CON_LO \<and> x \<notin> set C_VOW_UP \<and> x \<notin> set C_CON_UP"
  "x \<in> set C_ACC_UP \<Longrightarrow> \<not> is_digit x \<and> \<not> is_fullwidth_digit x \<and> \<not> is_separator x \<and> x \<notin> set C_VOW_LO \<and> x \<notin> set C_CON_LO \<and> x \<notin> set C_VOW_UP \<and> x \<notin> set C_CON_UP \<and> x \<notin> set C_ACC_LO"
  using C_VOW_LO_range[of x] C_CON_LO_range[of x] C_VOW_UP_range[of x] C_CON_UP_range[of x]
    C_ACC_LO_range[of x] C_ACC_UP_range[of x]
  by (auto simp: is_digit_def is_separator_def is_fullwidth_digit_def)

lemma ced_props:
  "\<not> is_digit C_CED_LO" "\<not> is_fullwidth_digit C_CED_LO" "\<not> is_separator C_CED_LO"
  "C_CED_LO \<notin> set C_VOW_LO" "C_CED_LO \<notin> set C_CON_LO" "C_CED_LO \<notin> set C_VOW_UP"
  "C_CED_LO \<notin> set C_CON_UP" "C_CED_LO \<notin> set C_ACC_LO" "C_CED_LO \<notin> set C_ACC_UP"
  "\<not> is_digit C_CED_UP" "\<not> is_fullwidth_digit C_CED_UP" "\<not> is_separator C_CED_UP"
  "C_CED_UP \<notin> set C_VOW_LO" "C_CED_UP \<notin> set C_CON_LO" "C_CED_UP \<notin> set C_VOW_UP"
  "C_CED_UP \<notin> set C_CON_UP" "C_CED_UP \<notin> set C_ACC_LO" "C_CED_UP \<notin> set C_ACC_UP"
  "C_CED_UP \<noteq> C_CED_LO"
  by (simp_all add: C_CED_LO_def C_CED_UP_def is_digit_def is_fullwidth_digit_def is_separator_def
      C_VOW_LO_def C_CON_LO_def C_VOW_UP_def C_CON_UP_def C_ACC_LO_def C_ACC_UP_def)

lemma skin_enc_class:
  "c \<in> set P_VOW_LO \<Longrightarrow> skin_char c s 1 = or_else (map_rotate P_VOW_LO C_VOW_LO c s 1) c"
  "c \<in> set P_CON_LO \<Longrightarrow> skin_char c s 1 = or_else (map_rotate P_CON_LO C_CON_LO c s 1) c"
  "c \<in> set P_VOW_UP \<Longrightarrow> skin_char c s 1 = or_else (map_rotate P_VOW_UP C_VOW_UP c s 1) c"
  "c \<in> set P_CON_UP \<Longrightarrow> skin_char c s 1 = or_else (map_rotate P_CON_UP C_CON_UP c s 1) c"
  "c \<in> set P_VOW_LO_PT \<Longrightarrow> skin_char c s 1 = or_else (map_rotate P_VOW_LO_PT C_ACC_LO c s 1) c"
  "c \<in> set P_VOW_UP_PT \<Longrightarrow> skin_char c s 1 = or_else (map_rotate P_VOW_UP_PT C_ACC_UP c s 1) c"
  using plain_props[of c] by (simp_all add: skin_char_def)

lemma skin_dec_class:
  "c \<in> set C_VOW_LO \<Longrightarrow> skin_char c s (- 1) = or_else (map_rotate P_VOW_LO C_VOW_LO c s (- 1)) c"
  "c \<in> set C_CON_LO \<Longrightarrow> skin_char c s (- 1) = or_else (map_rotate P_CON_LO C_CON_LO c s (- 1)) c"
  "c \<in> set C_VOW_UP \<Longrightarrow> skin_char c s (- 1) = or_else (map_rotate P_VOW_UP C_VOW_UP c s (- 1)) c"
  "c \<in> set C_CON_UP \<Longrightarrow> skin_char c s (- 1) = or_else (map_rotate P_CON_UP C_CON_UP c s (- 1)) c"
  "c \<in> set C_ACC_LO \<Longrightarrow> skin_char c s (- 1) = or_else (map_rotate P_VOW_LO_PT C_ACC_LO c s (- 1)) c"
  "c \<in> set C_ACC_UP \<Longrightarrow> skin_char c s (- 1) = or_else (map_rotate P_VOW_UP_PT C_ACC_UP c s (- 1)) c"
  using cipher_props[of c] by (simp_all add: skin_char_def)

lemma skin_class_roundtrip:
  assumes enc: "skin_char c s 1 = or_else (map_rotate P C c s 1) c"
    and dec: "\<And>r. r \<in> set C \<Longrightarrow> skin_char r (- s) (- 1) = or_else (map_rotate P C r (- s) (- 1)) r"
    and dP: "distinct P" and dC: "distinct C" and n2: "2 \<le> length P" and le: "length P \<le> length C"
    and m: "c \<in> set P"
  shows "skin_char c s 1 \<in> set C \<and> skin_char (skin_char c s 1) (- s) (- 1) = c"
proof -
  from map_rotate_roundtrip[OF dP dC n2 le m, of s] obtain r where
    r: "map_rotate P C c s 1 = Some r" "r \<in> set C" "map_rotate P C r (- s) (- 1) = Some c" by blast
  then have "skin_char c s 1 = r" using enc by (simp add: or_else_def)
  then show ?thesis using r dec[OF r(2)] by (simp add: or_else_def)
qed

lemma skin_digit_enc:
  assumes "is_digit c"
  shows "skin_char c s 1 = nat (0xFF10 + (int c - 48 + s) mod 10)"
  by (simp only: skin_char_def assms if_True Let_def digit_mod simp_thms zero_less_one)

lemma skin_fw_digit_dec:
  assumes "is_fullwidth_digit c"
  shows "skin_char c s (- 1) = nat (48 + (int c - 0xFF10 + s) mod 10)"
proof -
  have nd: "\<not> is_digit c" using assms by (simp add: is_digit_def is_fullwidth_digit_def)
  have "\<not> (0::int) < - 1" by simp
  then show ?thesis
    by (simp only: skin_char_def assms nd if_True if_False Let_def digit_mod simp_thms)
qed

lemma skin_digit_roundtrip:
  assumes "is_digit c"
  shows "is_fullwidth_digit (skin_char c s 1) \<and> skin_char (skin_char c s 1) (- s) (- 1) = c"
proof -
  define r where "r = (int c - 48 + s) mod 10"
  have nd: "0 \<le> r" "r < 10" by (simp_all add: r_def)
  then have fw: "is_fullwidth_digit (nat (0xFF10 + r))" unfolding is_fullwidth_digit_def by linarith
  have "int c - 48 \<ge> 0" "int c - 48 < 10" using assms by (auto simp: is_digit_def)
  then have "(r + - s) mod 10 = int c - 48" unfolding r_def by (rule digit_back)
  moreover have "int (nat (0xFF10 + r)) - 0xFF10 = r" using nd by simp
  ultimately have "skin_char (nat (0xFF10 + r)) (- s) (- 1) = c"
    unfolding skin_fw_digit_dec[OF fw] by simp
  then show ?thesis using fw unfolding skin_digit_enc[OF assms] r_def by simp
qed

lemma skin_other_enc: "\<not> skin_plain c \<Longrightarrow> skin_char c s 1 = c"
  by (simp add: skin_plain_def skin_char_def)

lemma skin_other_dec: "\<not> skin_cipher c \<Longrightarrow> \<not> is_digit c \<Longrightarrow> skin_char c s (- 1) = c"
  by (simp add: skin_cipher_def skin_char_def)

lemma skin_ced:
  "skin_char 0xE7 s 1 = C_CED_LO" "skin_char 0xC7 s 1 = C_CED_UP"
  "skin_char C_CED_LO s (- 1) = 0xE7" "skin_char C_CED_UP s (- 1) = 0xC7"
proof -
  have a: "\<not> is_digit 0xE7" "\<not> is_digit 0xC7"
    "0xE7 \<notin> set P_VOW_LO" "0xE7 \<notin> set P_CON_LO" "0xE7 \<notin> set P_VOW_UP" "0xE7 \<notin> set P_CON_UP"
    "0xE7 \<notin> set P_VOW_LO_PT" "0xE7 \<notin> set P_VOW_UP_PT"
    "0xC7 \<notin> set P_VOW_LO" "0xC7 \<notin> set P_CON_LO" "0xC7 \<notin> set P_VOW_UP" "0xC7 \<notin> set P_CON_UP"
    "0xC7 \<notin> set P_VOW_LO_PT" "0xC7 \<notin> set P_VOW_UP_PT"
    by (simp_all add: is_digit_def P_VOW_LO_def P_CON_LO_def P_VOW_UP_def P_CON_UP_def
        P_VOW_LO_PT_def P_VOW_UP_PT_def ascii_def)
  show "skin_char 0xE7 s 1 = C_CED_LO" "skin_char 0xC7 s 1 = C_CED_UP"
    using a by (simp_all add: skin_char_def)
  show "skin_char C_CED_LO s (- 1) = 0xE7" "skin_char C_CED_UP s (- 1) = 0xC7"
    using ced_props by (simp_all add: skin_char_def)
qed

lemma skin_char_roundtrip:
  assumes ok: "\<not> skin_cipher c"
  shows "skin_char (skin_char c s 1) (- s) (- 1) = c"
proof -
  consider (dig) "is_digit c" | (vl) "c \<in> set P_VOW_LO" | (cl) "c \<in> set P_CON_LO"
    | (vu) "c \<in> set P_VOW_UP" | (cu) "c \<in> set P_CON_UP"
    | (al) "c \<in> set P_VOW_LO_PT" | (au) "c \<in> set P_VOW_UP_PT"
    | (cedl) "c = 0xE7" | (cedu) "c = 0xC7" | (other) "\<not> skin_plain c"
    unfolding skin_plain_def by blast
  then show ?thesis
  proof cases
    case dig
    then show ?thesis using skin_digit_roundtrip by blast
  next
    case vl
    show ?thesis
      using skin_class_roundtrip[OF skin_enc_class(1)[OF vl] skin_dec_class(1) skin_distinct(1,7) _ _ vl]
      by (simp add: skin_lengths)
  next
    case cl
    show ?thesis
      using skin_class_roundtrip[OF skin_enc_class(2)[OF cl] skin_dec_class(2) skin_distinct(2,8) _ _ cl]
      by (simp add: skin_lengths)
  next
    case vu
    show ?thesis
      using skin_class_roundtrip[OF skin_enc_class(3)[OF vu] skin_dec_class(3) skin_distinct(3,9) _ _ vu]
      by (simp add: skin_lengths)
  next
    case cu
    show ?thesis
      using skin_class_roundtrip[OF skin_enc_class(4)[OF cu] skin_dec_class(4) skin_distinct(4,10) _ _ cu]
      by (simp add: skin_lengths)
  next
    case al
    show ?thesis
      using skin_class_roundtrip[OF skin_enc_class(5)[OF al] skin_dec_class(5) skin_distinct(5,11) _ _ al]
      by (simp add: skin_lengths)
  next
    case au
    show ?thesis
      using skin_class_roundtrip[OF skin_enc_class(6)[OF au] skin_dec_class(6) skin_distinct(6,12) _ _ au]
      by (simp add: skin_lengths)
  next
    case cedl
    then show ?thesis by (simp add: skin_ced)
  next
    case cedu
    then show ?thesis by (simp add: skin_ced)
  next
    case other
    then have "\<not> is_digit c" by (simp add: skin_plain_def)
    with other ok show ?thesis by (simp add: skin_other_enc skin_other_dec)
  qed
qed

section \<open>Kana skin: the loop and the base API\<close>

lemma is_fullwidth_punct_iff:
  "is_fullwidth_punct c \<longleftrightarrow> c \<in> {0xFF1F, 0xFF01, 0x3001, 0x3002, 0xFF1A, 0xFF1B, 0xFF08, 0xFF09,
      0xFF3B, 0xFF3D, 0xFF5B, 0xFF5D, 0xFF02}"
  by (auto simp: is_fullwidth_punct_def PUNCT_DEC_MAP_def PUNCT_ENC_MAP_def)

lemma skin_cipher_range:
  assumes "skin_cipher c"
  shows "(0x3042 \<le> c \<and> c \<le> 0x30FE \<and> c \<noteq> 0x30FB) \<or> is_fullwidth_digit c"
  using assms C_VOW_LO_range[of c] C_CON_LO_range[of c] C_VOW_UP_range[of c] C_CON_UP_range[of c]
    C_ACC_LO_range[of c] C_ACC_UP_range[of c]
  by (auto simp: skin_cipher_def C_CED_LO_def C_CED_UP_def)

lemma skin_cipher_props:
  assumes "skin_cipher c"
  shows "\<not> is_separator c" "\<not> is_fullwidth_punct c" "\<not> is_token_sep_jp c"
  using skin_cipher_range[OF assms]
  by (auto simp: is_separator_def is_fullwidth_punct_iff is_token_sep_jp_def is_fullwidth_digit_def)

lemma skin_plain_props:
  assumes "skin_plain c"
  shows "\<not> is_separator c" "\<not> is_token_sep_jp c"
  using assms P_VOW_LO_range[of c] P_CON_LO_range[of c] P_VOW_UP_range[of c] P_CON_UP_range[of c]
    P_VOW_LO_PT_range[of c] P_VOW_UP_PT_range[of c]
  by (auto simp: skin_plain_def is_separator_def is_token_sep_jp_def is_digit_def)

lemma skin_enc_out: "skin_plain c \<and> skin_cipher (skin_char c s 1) \<or> skin_char c s 1 = c"
proof -
  consider (dig) "is_digit c" | (vl) "c \<in> set P_VOW_LO" | (cl) "c \<in> set P_CON_LO"
    | (vu) "c \<in> set P_VOW_UP" | (cu) "c \<in> set P_CON_UP"
    | (al) "c \<in> set P_VOW_LO_PT" | (au) "c \<in> set P_VOW_UP_PT"
    | (cedl) "c = 0xE7" | (cedu) "c = 0xC7" | (other) "\<not> skin_plain c"
    unfolding skin_plain_def by blast
  then show ?thesis
  proof cases
    case dig
    then show ?thesis using skin_digit_roundtrip[OF dig, of s] by (simp add: skin_plain_def skin_cipher_def)
  next
    case vl
    show ?thesis
      using skin_class_roundtrip[OF skin_enc_class(1)[OF vl] skin_dec_class(1) skin_distinct(1,7) _ _ vl, of s] vl
      by (simp add: skin_lengths skin_plain_def skin_cipher_def)
  next
    case cl
    show ?thesis
      using skin_class_roundtrip[OF skin_enc_class(2)[OF cl] skin_dec_class(2) skin_distinct(2,8) _ _ cl, of s] cl
      by (simp add: skin_lengths skin_plain_def skin_cipher_def)
  next
    case vu
    show ?thesis
      using skin_class_roundtrip[OF skin_enc_class(3)[OF vu] skin_dec_class(3) skin_distinct(3,9) _ _ vu, of s] vu
      by (simp add: skin_lengths skin_plain_def skin_cipher_def)
  next
    case cu
    show ?thesis
      using skin_class_roundtrip[OF skin_enc_class(4)[OF cu] skin_dec_class(4) skin_distinct(4,10) _ _ cu, of s] cu
      by (simp add: skin_lengths skin_plain_def skin_cipher_def)
  next
    case al
    show ?thesis
      using skin_class_roundtrip[OF skin_enc_class(5)[OF al] skin_dec_class(5) skin_distinct(5,11) _ _ al, of s] al
      by (simp add: skin_lengths skin_plain_def skin_cipher_def)
  next
    case au
    show ?thesis
      using skin_class_roundtrip[OF skin_enc_class(6)[OF au] skin_dec_class(6) skin_distinct(6,12) _ _ au, of s] au
      by (simp add: skin_lengths skin_plain_def skin_cipher_def)
  next
    case cedl
    then show ?thesis by (simp add: skin_ced skin_plain_def skin_cipher_def)
  next
    case cedu
    then show ?thesis by (simp add: skin_ced skin_plain_def skin_cipher_def)
  next
    case other
    then show ?thesis by (simp add: skin_other_enc)
  qed
qed

lemma skin_enc_separator: "is_separator (skin_char c s 1) = is_separator c"
  using skin_enc_out[of c s] skin_cipher_props(1) skin_plain_props(1) by auto

lemma skin_enc_token_sep: "is_token_sep_jp (skin_char c s 1) = is_token_sep_jp c"
  using skin_enc_out[of c s] skin_cipher_props(3) skin_plain_props(2) by auto

lemma skin_enc_not_fw_punct:
  "\<not> is_fullwidth_punct c \<Longrightarrow> \<not> is_fullwidth_punct (skin_char c s 1)"
  using skin_enc_out[of c s] skin_cipher_props(2) by auto

lemma skin_loop_eq:
  "skin_loop ks d k (c # cs) =
     (if is_separator c then c # skin_loop ks d k cs
      else skin_char c ((uint (ks ! k) + 1) * d) d # skin_loop ks d (next_kpos ks k) cs)"
  by (simp add: Let_def uint_and_0xFF)

lemma skin_loop_length: "length (skin_loop ks d k s) = length s"
  by (induction s arbitrary: k) (auto simp: Let_def)

lemma skin_loop_not_fw_punct:
  "list_all (\<lambda>c. \<not> is_fullwidth_punct c) s
     \<Longrightarrow> list_all (\<lambda>c. \<not> is_fullwidth_punct c) (skin_loop ks 1 k s)"
  by (induction s arbitrary: k) (simp_all add: skin_loop_eq skin_enc_not_fw_punct del: skin_loop.simps(2))

lemma skin_loop_inverse:
  "list_all (\<lambda>c. \<not> skin_cipher c) s \<Longrightarrow> skin_loop ks (- 1) k (skin_loop ks 1 k s) = s"
proof (induction s arbitrary: k)
  case Nil
  then show ?case by simp
next
  case (Cons c cs)
  then have c: "\<not> skin_cipher c" and cs: "list_all (\<lambda>c. \<not> skin_cipher c) cs" by simp_all
  show ?case
  proof (cases "is_separator c")
    case True
    then show ?thesis by (simp add: skin_loop_eq Cons.IH[OF cs] del: skin_loop.simps(2))
  next
    case False
    then show ?thesis
      using skin_char_roundtrip[OF c, of "uint (ks ! k) + 1"]
      by (simp add: skin_loop_eq skin_enc_separator Cons.IH[OF cs] del: skin_loop.simps(2))
  qed
qed

lemma skin_transform_length: "length (skin_transform K s p i salt d) = length s"
  by (simp add: skin_transform_def Let_def skin_loop_length)

lemma skin_transform_inverse:
  assumes "list_all (\<lambda>c. \<not> skin_cipher c) s"
  shows "skin_transform K (skin_transform K s p i salt 1) p i salt (- 1) = s"
proof (cases "s = []")
  case True
  then show ?thesis by (simp add: skin_transform_def)
next
  case False
  then have ne: "skin_loop ks 1 0 s \<noteq> []" for ks
    using skin_loop_length[of ks 1 0 s] by (metis length_0_conv)
  show ?thesis using False ne
    by (simp add: skin_transform_def Let_def skin_loop_length skin_loop_inverse[OF assms])
qed

lemma skin_transform_not_fw_punct:
  "list_all (\<lambda>c. \<not> is_fullwidth_punct c) s
     \<Longrightarrow> list_all (\<lambda>c. \<not> is_fullwidth_punct c) (skin_transform K s p i salt 1)"
  by (simp add: skin_transform_def Let_def skin_loop_not_fw_punct)

text \<open>
  C3, as stated, fails for a text that already holds a scalar of a cipher alphabet: the
  encoder leaves hiragana U+3042 alone and the decoder reads it as a ciphertext vowel.
\<close>

theorem kanashift_skin_kana_plaintext_counterexample:
  "kanashift_skin_decrypt sample_pbkdf2 (kanashift_skin_encrypt sample_pbkdf2 [0x3042] PW 1000 SALT True)
      PW 1000 SALT True \<noteq> [0x3042]"
  by code_simp

text \<open>
  C3, amended: the kana-skin base mode round-trips every text that holds no scalar of the
  kana cipher alphabets, no cedilla marker (U+309E, U+30FE), no fullwidth digit and no
  fullwidth punctuation of the translation table, for every password, salt and iteration
  count, provided that, when punctuation shifting is on, the first \<open>length text\<close>
  bytes of the punctuation keystream are not 0.
\<close>

theorem kanashift_skin_roundtrip:
  assumes ok: "list_all skin_plaintext_ok text"
    and nz: "shift_punct \<longrightarrow>
               nonzero_prefix K password (salt @ ascii ''|PunctShiftJP:v2'') iterations (length text)"
  shows "kanashift_skin_decrypt K (kanashift_skin_encrypt K text password iterations salt shift_punct)
           password iterations salt shift_punct = text"
proof -
  let ?r1 = "skin_transform K text password iterations salt 1"
  let ?r2 = "punct_translate ?r1 1"
  from ok have a: "list_all (\<lambda>c. \<not> skin_cipher c) text" and b: "list_all (\<lambda>c. \<not> is_fullwidth_punct c) text"
    by (simp_all add: skin_plaintext_ok_def list_all_iff)
  have len: "length ?r2 = length text" by (simp add: punct_translate_length skin_transform_length)
  have p: "shift_punct \<Longrightarrow>
      punct_shift_apply_jp K (punct_shift_apply_jp K ?r2 password iterations salt 1) password iterations salt (- 1) = ?r2"
    using nz by (intro punct_shift_apply_jp_inverse) (simp add: len)
  have t: "punct_translate ?r2 (- 1) = ?r1"
    by (rule punct_translate_inverse[OF skin_transform_not_fw_punct[OF b]])
  have s: "skin_transform K ?r1 password iterations salt (- 1) = text"
    by (rule skin_transform_inverse[OF a])
  show ?thesis
    by (cases shift_punct) (simp_all add: kanashift_skin_decrypt_def kanashift_skin_encrypt_def Let_def p t s)
qed

theorem kanashift_skin_roundtrip_witness:
  "kanashift_skin_decrypt sample_pbkdf2 (kanashift_skin_encrypt sample_pbkdf2 ABC_123 PW 1000 SALT True)
      PW 1000 SALT True = ABC_123"
proof -
  have h1: "list_all skin_plaintext_ok ABC_123" by code_simp
  have h2: "True \<longrightarrow> nonzero_prefix sample_pbkdf2 PW (SALT @ ascii ''|PunctShiftJP:v2'') 1000 (length ABC_123)"
    by code_simp
  show ?thesis by (rule kanashift_skin_roundtrip[OF h1 h2])
qed

section \<open>JP-native: one scalar\<close>

lemma rotate_allow_zero_notin: "ch \<notin> set A \<Longrightarrow> rotate_in_set_allow_zero A ch shift = ch"
  by (simp add: rotate_in_set_allow_zero_def Let_def str_find_notin)

lemma rotate_allow_zero_eq:
  assumes "ch \<in> set A"
  shows "rotate_in_set_allow_zero A ch shift =
         A ! nat ((str_find A ch + shift mod int (length A)) mod int (length A))"
  using str_find_in[OF assms] by (simp add: rotate_in_set_allow_zero_def Let_def)

lemma rotate_allow_zero_in:
  assumes "ch \<in> set A"
  shows "rotate_in_set_allow_zero A ch shift \<in> set A"
proof -
  from assms have n: "0 < int (length A)" by (cases A) auto
  let ?j = "(str_find A ch + shift mod int (length A)) mod int (length A)"
  have "0 \<le> ?j" "?j < int (length A)" using n by simp_all
  then have "nat ?j < length A" by linarith
  then show ?thesis unfolding rotate_allow_zero_eq[OF assms] by (rule nth_mem)
qed

lemma rotate_allow_zero_inverse:
  assumes d: "distinct A" and m: "ch \<in> set A"
  shows "rotate_in_set_allow_zero A (rotate_in_set_allow_zero A ch shift) (- shift) = ch"
proof -
  let ?n = "int (length A)"
  let ?i = "str_find A ch"
  let ?j = "(?i + shift mod ?n) mod ?n"
  from m have n: "0 < ?n" by (cases A) auto
  have j: "0 \<le> ?j" "?j < ?n" using n by simp_all
  then have jl: "nat ?j < length A" by linarith
  have fj: "str_find A (A ! nat ?j) = ?j" using str_find_nth[OF d jl] j by simp
  have in2: "A ! nat ?j \<in> set A" using jl by (rule nth_mem)
  have "(?j + (- shift) mod ?n) mod ?n = (?i + (shift + - shift)) mod ?n"
    by (metis (no_types, opaque_lifting) add.assoc mod_add_left_eq mod_add_right_eq)
  then have bk: "(?j + (- shift) mod ?n) mod ?n = ?i" using str_find_in[OF m] by simp
  have "rotate_in_set_allow_zero A (A ! nat ?j) (- shift) = A ! nat ?i"
    unfolding rotate_allow_zero_eq[OF in2] fj bk ..
  with str_find_in[OF m] show ?thesis unfolding rotate_allow_zero_eq[OF m] by simp
qed

lemma rotate_range_in:
  assumes "lo \<le> ch" and "ch \<le> hi"
  shows "lo \<le> rotate_codepoint_range_no_zero ch shift lo hi
         \<and> rotate_codepoint_range_no_zero ch shift lo hi \<le> hi"
proof -
  let ?n = "int hi - int lo + 1"
  let ?j = "(int ch - int lo + effective_shift shift ?n) mod ?n"
  have n: "0 < ?n" using assms by linarith
  have j: "0 \<le> ?j" "?j < ?n" using n by (rule pos_mod_sign, rule pos_mod_bound)
  have e: "rotate_codepoint_range_no_zero ch shift lo hi = nat (int lo + ?j)"
    using assms by (simp add: rotate_codepoint_range_no_zero_def Let_def)
  show ?thesis unfolding e using j by linarith
qed

lemma rotate_range_inverse:
  assumes lo: "lo \<le> ch" and hi: "ch \<le> hi" and s: "shift \<noteq> 0"
  shows "rotate_codepoint_range_no_zero (rotate_codepoint_range_no_zero ch shift lo hi) (- shift) lo hi = ch"
proof -
  let ?n = "int hi - int lo + 1"
  let ?i = "int ch - int lo"
  let ?j = "(?i + effective_shift shift ?n) mod ?n"
  let ?r = "nat (int lo + ?j)"
  have n: "0 < ?n" using lo hi by linarith
  have i: "0 \<le> ?i" "?i < ?n" using lo hi by linarith+
  have j: "0 \<le> ?j" "?j < ?n" using n by (rule pos_mod_sign, rule pos_mod_bound)
  have e: "rotate_codepoint_range_no_zero ch shift lo hi = ?r"
    using lo hi by (simp add: rotate_codepoint_range_no_zero_def Let_def)
  have rr: "lo \<le> ?r" "?r \<le> hi" "int ?r - int lo = ?j" using j by linarith+
  have sum0: "(effective_shift shift ?n + effective_shift (- shift) ?n) mod ?n = 0"
  proof (cases "2 \<le> ?n")
    case True
    then show ?thesis using s by (intro effective_shift_neg) auto
  next
    case False
    then show ?thesis by (simp add: effective_shift_def)
  qed
  have "(?j + effective_shift (- shift) ?n) mod ?n
        = (?i + (effective_shift shift ?n + effective_shift (- shift) ?n)) mod ?n"
    by (simp add: mod_add_left_eq add.assoc)
  also have "\<dots> = (?i mod ?n + (effective_shift shift ?n + effective_shift (- shift) ?n) mod ?n) mod ?n"
    by (simp only: mod_add_eq)
  also have "\<dots> = ?i" using i sum0 by simp
  finally have bk: "(?j + effective_shift (- shift) ?n) mod ?n = ?i" .
  have "rotate_codepoint_range_no_zero ?r (- shift) lo hi = nat (int lo + ?i)"
    using rr(1,2) by (simp add: rotate_codepoint_range_no_zero_def Let_def rr(3) bk del: of_nat_add)
  then show ?thesis unfolding e using lo by simp
qed

lemma JP_HIRA_iff: "c \<in> set JP_HIRA \<longleftrightarrow> is_hiragana c"
  unfolding JP_HIRA_def build_kana_set_def is_hiragana_def set_upt by auto
lemma JP_KATA_iff: "c \<in> set JP_KATA \<longleftrightarrow> is_katakana c"
  unfolding JP_KATA_def build_kana_set_def is_katakana_def set_upt by auto
lemma distinct_JP: "distinct JP_HIRA" "distinct JP_KATA"
  by (simp_all only: JP_HIRA_def JP_KATA_def build_kana_set_def distinct_upt)

lemma str_upper_lower: "is_ascii_lower x \<Longrightarrow> str_upper x = x - 32 \<and> is_ascii_upper (x - 32) \<and> x - 32 + 32 = x"
  by (auto simp: str_upper_def is_ascii_lower_def is_ascii_upper_def)

lemma raap_upper_vow:
  assumes "is_ascii_upper c" "c + 32 \<in> set VOW_LO"
  shows "rotate_ascii_alpha_phono c s = rotate_in_set_allow_zero VOW_LO (c + 32) s - 32"
  using assms str_upper_lower[OF VOW_LO_lower[OF rotate_allow_zero_in[OF assms(2), of s]]]
  by (simp add: rotate_ascii_alpha_phono_def to_lower_ascii_eq Let_def)

lemma raap_upper_con:
  assumes "is_ascii_upper c" "c + 32 \<in> set CON_LO"
  shows "rotate_ascii_alpha_phono c s = rotate_in_set_allow_zero CON_LO (c + 32) s - 32"
  using assms str_upper_lower[OF CON_LO_lower[OF rotate_allow_zero_in[OF assms(2), of s]]]
    VOW_CON_disjoint[of "c + 32"]
  by (auto simp add: rotate_ascii_alpha_phono_def to_lower_ascii_eq Let_def)

lemma raap_lower_vow:
  assumes "c \<in> set VOW_LO"
  shows "rotate_ascii_alpha_phono c s = rotate_in_set_allow_zero VOW_LO c s"
  using assms ascii_lower_props[OF VOW_LO_lower[OF assms]] VOW_LO_lower[OF assms]
  by (simp add: rotate_ascii_alpha_phono_def)

lemma raap_lower_con:
  assumes "c \<in> set CON_LO"
  shows "rotate_ascii_alpha_phono c s = rotate_in_set_allow_zero CON_LO c s"
  using assms ascii_lower_props[OF CON_LO_lower[OF assms]] CON_LO_lower[OF assms] VOW_CON_disjoint[of c]
  by (auto simp add: rotate_ascii_alpha_phono_def)

lemma raap_other: "\<not> raap_rotated c \<Longrightarrow> rotate_ascii_alpha_phono c s = c"
  by (auto simp: raap_rotated_def rotate_ascii_alpha_phono_def to_lower_ascii_eq Let_def)

lemma raap_roundtrip:
  "is_ascii_upper (rotate_ascii_alpha_phono c s) = is_ascii_upper c
   \<and> is_ascii_lower (rotate_ascii_alpha_phono c s) = is_ascii_lower c
   \<and> rotate_ascii_alpha_phono (rotate_ascii_alpha_phono c s) (- s) = c"
proof -
  consider (lv) "c \<in> set VOW_LO" | (lc) "c \<in> set CON_LO"
    | (uv) "is_ascii_upper c" "c + 32 \<in> set VOW_LO" | (uc) "is_ascii_upper c" "c + 32 \<in> set CON_LO"
    | (other) "\<not> raap_rotated c"
    unfolding raap_rotated_def by blast
  then show ?thesis
  proof cases
    case lv
    let ?r = "rotate_in_set_allow_zero VOW_LO c s"
    have r: "?r \<in> set VOW_LO" using lv by (rule rotate_allow_zero_in)
    from ascii_lower_props[OF VOW_LO_lower[OF r]] ascii_lower_props[OF VOW_LO_lower[OF lv]]
      VOW_LO_lower[OF r] VOW_LO_lower[OF lv]
    show ?thesis
      by (simp add: raap_lower_vow[OF lv] raap_lower_vow[OF r] rotate_allow_zero_inverse[OF distinct_VOW_LO lv])
  next
    case lc
    let ?r = "rotate_in_set_allow_zero CON_LO c s"
    have r: "?r \<in> set CON_LO" using lc by (rule rotate_allow_zero_in)
    from ascii_lower_props[OF CON_LO_lower[OF r]] ascii_lower_props[OF CON_LO_lower[OF lc]]
      CON_LO_lower[OF r] CON_LO_lower[OF lc]
    show ?thesis
      by (simp add: raap_lower_con[OF lc] raap_lower_con[OF r] rotate_allow_zero_inverse[OF distinct_CON_LO lc])
  next
    case uv
    let ?r = "rotate_in_set_allow_zero VOW_LO (c + 32) s"
    have r: "?r \<in> set VOW_LO" using uv(2) by (rule rotate_allow_zero_in)
    note up = str_upper_lower[OF VOW_LO_lower[OF r]]
    have r2: "?r - 32 + 32 \<in> set VOW_LO" using r up by simp
    have "rotate_ascii_alpha_phono (?r - 32) (- s) = rotate_in_set_allow_zero VOW_LO ?r (- s) - 32"
      using raap_upper_vow[OF _ r2, of "- s"] up by simp
    also have "\<dots> = c" using rotate_allow_zero_inverse[OF distinct_VOW_LO uv(2)] by simp
    finally show ?thesis using uv up ascii_upper_props[of c] ascii_upper_props[of "?r - 32"]
      by (simp add: raap_upper_vow[OF uv])
  next
    case uc
    let ?r = "rotate_in_set_allow_zero CON_LO (c + 32) s"
    have r: "?r \<in> set CON_LO" using uc(2) by (rule rotate_allow_zero_in)
    note up = str_upper_lower[OF CON_LO_lower[OF r]]
    have r2: "?r - 32 + 32 \<in> set CON_LO" using r up by simp
    have "rotate_ascii_alpha_phono (?r - 32) (- s) = rotate_in_set_allow_zero CON_LO ?r (- s) - 32"
      using raap_upper_con[OF _ r2, of "- s"] up by simp
    also have "\<dots> = c" using rotate_allow_zero_inverse[OF distinct_CON_LO uc(2)] by simp
    finally show ?thesis using uc up ascii_upper_props[of c] ascii_upper_props[of "?r - 32"]
      by (simp add: raap_upper_con[OF uc])
  next
    case other
    then show ?thesis by (simp add: raap_other)
  qed
qed

lemmas jp_range_defs = is_ascii_upper_def is_ascii_lower_def is_digit_def is_fullwidth_digit_def
  is_hiragana_def is_katakana_def is_kanji_def

lemma add10_mod: "(d + e + 10) mod 10 = (d + e) mod (10::int)"
  by (metis mod_add_self2)

lemma jp_char_letter:
  "is_ascii_upper c \<or> is_ascii_lower c \<Longrightarrow> jp_char c s d = rotate_ascii_alpha_phono c s"
  by (simp add: jp_char_def)

lemma jp_char_digit_enc:
  assumes "is_digit c"
  shows "jp_char c s 1 = nat (0xFF10 + (int c - 48 + effective_shift s 10) mod 10)"
proof -
  have n: "\<not> (is_ascii_upper c \<or> is_ascii_lower c)" using assms by (auto simp: jp_range_defs)
  show ?thesis
    by (simp only: jp_char_def n assms if_True if_False Let_def add10_mod simp_thms zero_less_one)
qed

lemma jp_char_fw_dec:
  assumes "is_fullwidth_digit c"
  shows "jp_char c s (- 1) = nat (48 + (int c - 0xFF10 + effective_shift s 10) mod 10)"
proof -
  have n: "\<not> (is_ascii_upper c \<or> is_ascii_lower c)" "\<not> is_digit c"
    using assms by (auto simp: jp_range_defs)
  have d: "\<not> (0::int) < - 1" by simp
  show ?thesis
    by (simp only: jp_char_def n assms d if_True if_False Let_def add10_mod simp_thms)
qed

lemma jp_char_hira: "is_hiragana c \<Longrightarrow> jp_char c s d = rotate_in_set_no_zero JP_HIRA c s"
  by (auto simp: jp_char_def jp_range_defs)

lemma jp_char_kata: "is_katakana c \<Longrightarrow> jp_char c s d = rotate_in_set_no_zero JP_KATA c s"
  by (auto simp: jp_char_def jp_range_defs)

lemma jp_char_kanji:
  "is_kanji c \<Longrightarrow> jp_char c s d = rotate_codepoint_range_no_zero c s 0x4E00 0x9FFF"
  by (auto simp: jp_char_def jp_range_defs)

lemma jp_char_other: "\<not> jp_class c \<Longrightarrow> jp_char c s d = c"
  by (simp add: jp_class_def jp_char_def)

lemma jp_digit_roundtrip:
  assumes dg: "is_digit c" and s: "s \<noteq> 0"
  shows "jp_char (jp_char c s 1) (- s) (- 1) = c"
proof -
  define r where "r = (int c - 48 + effective_shift s 10) mod 10"
  have nd: "0 \<le> r" "r < 10" by (simp_all add: r_def)
  then have fw: "is_fullwidth_digit (nat (0xFF10 + r))" unfolding is_fullwidth_digit_def by linarith
  have d: "int c - 48 \<ge> 0" "int c - 48 < 10" using dg by (auto simp: is_digit_def)
  have sum0: "(effective_shift s 10 + effective_shift (- s) 10) mod 10 = 0"
    using s by (intro effective_shift_neg) auto
  have "(r + effective_shift (- s) 10) mod 10
        = (int c - 48 + (effective_shift s 10 + effective_shift (- s) 10)) mod 10"
    unfolding r_def by (simp add: mod_add_left_eq add.assoc)
  also have "\<dots> = ((int c - 48) mod 10 + (effective_shift s 10 + effective_shift (- s) 10) mod 10) mod 10"
    by (simp only: mod_add_eq)
  also have "\<dots> = int c - 48" using d sum0 by simp
  finally have bk: "(r + effective_shift (- s) 10) mod 10 = int c - 48" .
  have "int (nat (0xFF10 + r)) - 0xFF10 = r" using nd by simp
  with bk have "jp_char (nat (0xFF10 + r)) (- s) (- 1) = c"
    unfolding jp_char_fw_dec[OF fw] by simp
  then show ?thesis unfolding jp_char_digit_enc[OF dg] r_def .
qed

lemma jp_char_roundtrip:
  assumes nf: "\<not> is_fullwidth_digit c" and s: "s \<noteq> 0"
  shows "jp_char (jp_char c s 1) (- s) (- 1) = c"
proof -
  have rs: "\<And>A. s \<noteq> 0 \<or> length A \<le> 2" using s by simp
  consider (letter) "is_ascii_upper c \<or> is_ascii_lower c" | (dig) "is_digit c"
    | (hira) "is_hiragana c" | (kata) "is_katakana c" | (kanji) "is_kanji c" | (other) "\<not> jp_class c"
    using nf unfolding jp_class_def by blast
  then show ?thesis
  proof cases
    case letter
    have "is_ascii_upper (rotate_ascii_alpha_phono c s) \<or> is_ascii_lower (rotate_ascii_alpha_phono c s)"
      using letter raap_roundtrip[of c s] by simp
    then show ?thesis using raap_roundtrip[of c s]
      by (simp add: jp_char_letter[OF letter] jp_char_letter)
  next
    case dig
    then show ?thesis using s by (rule jp_digit_roundtrip)
  next
    case hira
    then have m: "c \<in> set JP_HIRA" by (simp add: JP_HIRA_iff)
    have "is_hiragana (rotate_in_set_no_zero JP_HIRA c s)"
      using rotate_no_zero_in[OF m, of s] by (simp add: JP_HIRA_iff)
    then show ?thesis
      by (simp add: jp_char_hira hira rotate_no_zero_inverse[OF distinct_JP(1) m rs])
  next
    case kata
    then have m: "c \<in> set JP_KATA" by (simp add: JP_KATA_iff)
    have "is_katakana (rotate_in_set_no_zero JP_KATA c s)"
      using rotate_no_zero_in[OF m, of s] by (simp add: JP_KATA_iff)
    then show ?thesis
      by (simp add: jp_char_kata kata rotate_no_zero_inverse[OF distinct_JP(2) m rs])
  next
    case kanji
    then have b: "0x4E00 \<le> c" "c \<le> 0x9FFF" by (simp_all add: is_kanji_def)
    have "is_kanji (rotate_codepoint_range_no_zero c s 0x4E00 0x9FFF)"
      using rotate_range_in[OF b, of s] by (simp add: is_kanji_def)
    then show ?thesis
      by (simp add: jp_char_kanji kanji rotate_range_inverse[OF b s])
  next
    case other
    then show ?thesis by (simp add: jp_char_other)
  qed
qed

lemma jp_char_out: "jp_char c s 1 = c \<or> (jp_class c \<and> jp_class (jp_char c s 1))"
proof -
  consider (letter) "is_ascii_upper c \<or> is_ascii_lower c" | (dig) "is_digit c"
    | (fw) "is_fullwidth_digit c"
    | (hira) "is_hiragana c" | (kata) "is_katakana c" | (kanji) "is_kanji c" | (other) "\<not> jp_class c"
    unfolding jp_class_def by blast
  then show ?thesis
  proof cases
    case letter
    then show ?thesis using raap_roundtrip[of c s]
      by (auto simp: jp_char_letter jp_class_def)
  next
    case dig
    have "0 \<le> (int c - 48 + effective_shift s 10) mod 10" "(int c - 48 + effective_shift s 10) mod 10 < 10"
      by simp_all
    then have "is_fullwidth_digit (nat (0xFF10 + (int c - 48 + effective_shift s 10) mod 10))"
      unfolding is_fullwidth_digit_def by linarith
    then show ?thesis using dig by (simp add: jp_char_digit_enc jp_class_def)
  next
    case fw
    then have n: "\<not> (is_ascii_upper c \<or> is_ascii_lower c)" "\<not> is_digit c"
      by (auto simp: jp_range_defs)
    let ?nd = "(int c - 0xFF10 + effective_shift s 10 + 10) mod 10"
    have e: "jp_char c s 1 = nat (0xFF10 + ?nd)"
      by (simp only: jp_char_def n fw if_True if_False Let_def simp_thms zero_less_one)
    have "0 \<le> ?nd" "?nd < 10" by simp_all
    then have "is_fullwidth_digit (nat (0xFF10 + ?nd))" unfolding is_fullwidth_digit_def by linarith
    then show ?thesis using fw by (simp add: e jp_class_def)
  next
    case hira
    then have m: "c \<in> set JP_HIRA" by (simp add: JP_HIRA_iff)
    have "is_hiragana (rotate_in_set_no_zero JP_HIRA c s)"
      using rotate_no_zero_in[OF m, of s] by (simp add: JP_HIRA_iff)
    then show ?thesis using hira by (simp add: jp_char_hira jp_class_def)
  next
    case kata
    then have m: "c \<in> set JP_KATA" by (simp add: JP_KATA_iff)
    have "is_katakana (rotate_in_set_no_zero JP_KATA c s)"
      using rotate_no_zero_in[OF m, of s] by (simp add: JP_KATA_iff)
    then show ?thesis using kata by (simp add: jp_char_kata jp_class_def)
  next
    case kanji
    then have b: "0x4E00 \<le> c" "c \<le> 0x9FFF" by (simp_all add: is_kanji_def)
    have "is_kanji (rotate_codepoint_range_no_zero c s 0x4E00 0x9FFF)"
      using rotate_range_in[OF b, of s] by (simp add: is_kanji_def)
    then show ?thesis using kanji by (simp add: jp_char_kanji jp_class_def)
  next
    case other
    then show ?thesis by (simp add: jp_char_other)
  qed
qed

lemma jp_class_props:
  assumes "jp_class c"
  shows "\<not> is_separator c" "\<not> is_stable_jp_mark c" "\<not> is_token_sep_jp c" "\<not> is_fullwidth_punct c"
  using assms
  by (auto simp: jp_class_def jp_range_defs is_separator_def is_stable_jp_mark_def
      is_token_sep_jp_def is_fullwidth_punct_iff)

lemma jp_char_consumes: "jp_consumes (jp_char c s 1) = jp_consumes c"
  using jp_char_out[of c s] jp_class_props(1,2) by (auto simp: jp_consumes_def)

lemma jp_char_token_sep: "is_token_sep_jp (jp_char c s 1) = is_token_sep_jp c"
  using jp_char_out[of c s] jp_class_props(3) by auto

lemma jp_char_not_fw_punct: "\<not> is_fullwidth_punct c \<Longrightarrow> \<not> is_fullwidth_punct (jp_char c s 1)"
  using jp_char_out[of c s] jp_class_props(4) by auto

lemma jp_loop_eq:
  "jp_loop ks d k (c # cs) =
     (if \<not> jp_consumes c then c # jp_loop ks d k cs
      else jp_char c (uint (ks ! k) * d) d # jp_loop ks d (next_kpos ks k) cs)"
  by (simp add: Let_def uint_and_0xFF jp_consumes_def)

lemma jp_loop_length: "length (jp_loop ks d k s) = length s"
  by (induction s arbitrary: k) (auto simp: Let_def)

lemma jp_loop_not_fw_punct:
  "list_all (\<lambda>c. \<not> is_fullwidth_punct c) s
     \<Longrightarrow> list_all (\<lambda>c. \<not> is_fullwidth_punct c) (jp_loop ks 1 k s)"
  by (induction s arbitrary: k) (simp_all add: jp_loop_eq jp_char_not_fw_punct del: jp_loop.simps(2))

lemma jp_loop_inverse:
  assumes "k + length (filter jp_consumes s) \<le> m" and "m < length ks"
    and "\<forall>i<m. ks ! i \<noteq> 0" and "list_all (\<lambda>c. \<not> is_fullwidth_digit c) s"
  shows "jp_loop ks (- 1) k (jp_loop ks 1 k s) = s"
  using assms(1,4)
proof (induction s arbitrary: k)
  case Nil
  then show ?case by simp
next
  case (Cons c cs)
  then have nf: "\<not> is_fullwidth_digit c" and nfs: "list_all (\<lambda>c. \<not> is_fullwidth_digit c) cs"
    by simp_all
  show ?case
  proof (cases "jp_consumes c")
    case False
    with Cons.prems have "k + length (filter jp_consumes cs) \<le> m" by simp
    from Cons.IH[OF this nfs] False show ?thesis
      by (simp only: jp_loop_eq if_True simp_thms)
  next
    case True
    with Cons.prems have km: "k < m" and rest: "Suc k + length (filter jp_consumes cs) \<le> m"
      by simp_all
    from km assms(2) have nk: "next_kpos ks k = Suc k" by (simp add: next_kpos_def)
    from km assms(3) have "ks ! k \<noteq> 0" by blast
    then have nz: "uint (ks ! k) \<noteq> 0" by (simp add: uint_0_iff)
    show ?thesis
      using jp_char_roundtrip[OF nf nz] Cons.IH[OF rest nfs] True
      by (simp add: jp_loop_eq jp_char_consumes nk del: jp_loop.simps)
  qed
qed

lemma jp_native_transform_length: "length (jp_native_transform K s p i salt d) = length s"
  by (simp add: jp_native_transform_def Let_def jp_loop_length)

lemma jp_native_transform_not_fw_punct:
  "list_all (\<lambda>c. \<not> is_fullwidth_punct c) s
     \<Longrightarrow> list_all (\<lambda>c. \<not> is_fullwidth_punct c) (jp_native_transform K s p i salt 1)"
  by (simp add: jp_native_transform_def Let_def jp_loop_not_fw_punct)

lemma jp_native_transform_inverse:
  assumes nz: "nonzero_prefix K p (salt @ ascii ''|JPNative:v2|AsciiShift'') i (length s)"
    and nf: "list_all (\<lambda>c. \<not> is_fullwidth_digit c) s"
  shows "jp_native_transform K (jp_native_transform K s p i salt 1) p i salt (- 1) = s"
proof (cases "s = []")
  case True
  then show ?thesis by (simp add: jp_native_transform_def)
next
  case False
  let ?ks = "pbkdf2_keystream K p (salt @ ascii ''|JPNative:v2|AsciiShift'') i (length s + 64)"
  have ne: "jp_loop ?ks 1 0 s \<noteq> []"
    using False jp_loop_length[of ?ks 1 0 s] by (metis length_0_conv)
  have len: "length ?ks = max (length s + 64) 32"
    by (simp add: pbkdf2_keystream_def derive_keystream_length)
  have nzk: "\<forall>j<length s. ?ks ! j \<noteq> 0"
  proof (intro allI impI)
    fix j assume j: "j < length s"
    then have "?ks ! j = K p (salt @ ascii ''|JPNative:v2|AsciiShift'') (max 1 i) j"
      by (simp add: pbkdf2_keystream_def derive_keystream_nth)
    then show "?ks ! j \<noteq> 0" using nonzero_prefix_nth[OF nz j] by simp
  qed
  have "jp_loop ?ks (- 1) 0 (jp_loop ?ks 1 0 s) = s"
    by (rule jp_loop_inverse[where m = "length s"]) (use len nzk nf in simp_all)
  then show ?thesis using False ne
    by (simp add: jp_native_transform_def Let_def jp_loop_length)
qed

text \<open>
  What the hypotheses on the keystreams keep out: a key byte 0 gives the shift
  \<open>0 * direction = 0\<close> in both directions, and \<^const>\<open>effective_shift\<close> makes it
  \<open>+1\<close> both times. The digit 1 comes back as 3, and the ideographic comma, through
  the three-scalar \<^const>\<open>P_MID\<close>, as the middle dot.
\<close>

lemma key_byte_zero_not_inverted:
  "jp_char (jp_char 0x31 (0 * 1) 1) (0 * - 1) (- 1) = 0x33
   \<and> punct_shift_char_jp (punct_shift_char_jp 0x3001 (0 * 1)) (0 * - 1) = 0x30FB"
  by code_simp

text \<open>
  C2, as stated, fails on its own example: the ideographic full stop U+3002 of the
  plaintext comes back as the ASCII full stop, because decoding translates fullwidth
  punctuation to ASCII whether or not the encoder produced it.
\<close>

theorem kanashift_jp_fullwidth_stop_counterexample:
  "kanashift_jp_decrypt sample_pbkdf2 (kanashift_jp_encrypt sample_pbkdf2 KANRYO_MARU PW 1000 SALT True)
      PW 1000 SALT True \<noteq> KANRYO_MARU"
  by code_simp

text \<open>
  C2, amended: the JP-native base mode round-trips every text that holds no fullwidth
  digit and no fullwidth punctuation of the translation table, for every password, salt
  and iteration count, provided that the first \<open>length text\<close> bytes of the
  JP-native keystream are not 0 and, when punctuation shifting is on, neither are those of
  the punctuation keystream.
\<close>

theorem kanashift_jp_roundtrip:
  assumes ok: "list_all jp_plaintext_ok text"
    and nzc: "nonzero_prefix K password (salt @ ascii ''|JPNative:v2|AsciiShift'') iterations (length text)"
    and nzp: "shift_punct \<longrightarrow>
               nonzero_prefix K password (salt @ ascii ''|PunctShiftJP:v2'') iterations (length text)"
  shows "kanashift_jp_decrypt K (kanashift_jp_encrypt K text password iterations salt shift_punct)
           password iterations salt shift_punct = text"
proof -
  let ?r1 = "jp_native_transform K text password iterations salt 1"
  let ?r2 = "punct_translate ?r1 1"
  from ok have a: "list_all (\<lambda>c. \<not> is_fullwidth_digit c) text"
    and b: "list_all (\<lambda>c. \<not> is_fullwidth_punct c) text"
    by (simp_all add: jp_plaintext_ok_def list_all_iff)
  have len: "length ?r2 = length text" by (simp add: punct_translate_length jp_native_transform_length)
  have p: "shift_punct \<Longrightarrow>
      punct_shift_apply_jp K (punct_shift_apply_jp K ?r2 password iterations salt 1) password iterations salt (- 1) = ?r2"
    using nzp by (intro punct_shift_apply_jp_inverse) (simp add: len)
  have t: "punct_translate ?r2 (- 1) = ?r1"
    by (rule punct_translate_inverse[OF jp_native_transform_not_fw_punct[OF b]])
  have s: "jp_native_transform K ?r1 password iterations salt (- 1) = text"
    by (rule jp_native_transform_inverse[OF nzc a])
  show ?thesis
    by (cases shift_punct) (simp_all add: kanashift_jp_decrypt_def kanashift_jp_encrypt_def Let_def p t s)
qed

theorem kanashift_jp_roundtrip_witness:
  "kanashift_jp_decrypt sample_pbkdf2 (kanashift_jp_encrypt sample_pbkdf2 KANRYO_DOT PW 1000 SALT True)
      PW 1000 SALT True = KANRYO_DOT"
proof -
  have h1: "list_all jp_plaintext_ok KANRYO_DOT" by code_simp
  have h2: "nonzero_prefix sample_pbkdf2 PW (SALT @ ascii ''|JPNative:v2|AsciiShift'') 1000 (length KANRYO_DOT)"
    by code_simp
  have h3: "True \<longrightarrow> nonzero_prefix sample_pbkdf2 PW (SALT @ ascii ''|PunctShiftJP:v2'') 1000 (length KANRYO_DOT)"
    by code_simp
  show ?thesis by (rule kanashift_jp_roundtrip[OF h1 h2 h3])
qed

section \<open>Length of the base-mode ciphertexts\<close>

text \<open>
  C8. The three base-mode encoders return exactly as many scalars as the text has, for
  every text, password, salt, iteration count and punctuation flag.
\<close>

theorem base_modes_preserve_length:
  "length (rot500k_encrypt K text password iterations salt shift_punct) = length text
   \<and> length (kanashift_skin_encrypt K text password iterations salt shift_punct) = length text
   \<and> length (kanashift_jp_encrypt K text password iterations salt shift_punct) = length text"
  by (simp add: rot500k_encrypt_def kanashift_skin_encrypt_def kanashift_jp_encrypt_def Let_def
      transform_fpe_length punct_shift_apply_length skin_transform_length punct_translate_length
      punct_shift_apply_jp_length jp_native_transform_length)

theorem base_modes_preserve_length_witness:
  "length (rot500k_encrypt sample_pbkdf2 VAMOS_LA PW 1000 SALT True) = length VAMOS_LA
   \<and> length (kanashift_skin_encrypt sample_pbkdf2 VAMOS_LA PW 1000 SALT True) = length VAMOS_LA
   \<and> length (kanashift_jp_encrypt sample_pbkdf2 VAMOS_LA PW 1000 SALT True) = length VAMOS_LA"
  by (rule base_modes_preserve_length)

section \<open>Unsupported scalars and the keystream cursor\<close>

lemma fpe_unrecognized: "\<not> fpe_recognized c \<Longrightarrow> fpe_char c s = c"
  by (simp add: fpe_recognized_def fpe_char_def Let_def)

lemma skin_unrecognized: "\<not> skin_recognized d c \<Longrightarrow> skin_char c s d = c"
  by (cases "d > 0") (simp_all add: skin_recognized_def skin_plain_def skin_cipher_def skin_char_def)

lemma jp_unrecognized: "\<not> jp_recognized c \<Longrightarrow> jp_consumes c \<and> jp_char c s d = c"
  by (simp add: jp_recognized_def jp_consumes_def jp_char_other)

text \<open>
  C7, as stated, fails in all three transforms: the key byte is read before the scalar is
  classified, so an unsupported scalar (here \<^verbatim>\<open>@\<close>) moves the cursor and the
  letter after it is rotated by the next byte of the keystream, not by the byte it would
  get without the \<^verbatim>\<open>@\<close>.
\<close>

theorem unsupported_scalar_shifts_keystream_counterexample:
  "\<not> fpe_recognized 0x40 \<and> \<not> skin_recognized 1 0x40 \<and> \<not> jp_recognized 0x40
   \<and> transform_name_name_like_fpe sample_pbkdf2 AT_A PW 1000 SALT 1
        \<noteq> 0x40 # transform_name_name_like_fpe sample_pbkdf2 [0x61] PW 1000 SALT 1
   \<and> skin_transform sample_pbkdf2 AT_A PW 1000 SALT 1
        \<noteq> 0x40 # skin_transform sample_pbkdf2 [0x61] PW 1000 SALT 1
   \<and> jp_native_transform sample_pbkdf2 AT_A PW 1000 SALT 1
        \<noteq> 0x40 # jp_native_transform sample_pbkdf2 [0x61] PW 1000 SALT 1"
  by code_simp

text \<open>
  C7, amended: in each family core transform a scalar of no recognised alphabet is
  emitted unchanged and advances the keystream cursor by one byte, like every other
  scalar that is not a separator (or, in the JP-native transform, a stable mark): the
  rest of the text is transformed from the next cursor position.
\<close>

theorem unsupported_scalar_consumes_key_byte:
  "(\<not> fpe_recognized u \<longrightarrow>
      fpe_loop ks d kpos (u # cs) = u # fpe_loop ks d (next_kpos ks kpos) cs)
   \<and> (\<not> skin_recognized d u \<longrightarrow>
      skin_loop ks d kpos (u # cs) = u # skin_loop ks d (next_kpos ks kpos) cs)
   \<and> (\<not> jp_recognized u \<longrightarrow>
      jp_loop ks d kpos (u # cs) = u # jp_loop ks d (next_kpos ks kpos) cs)"
proof (intro conjI impI)
  assume "\<not> fpe_recognized u"
  then show "fpe_loop ks d kpos (u # cs) = u # fpe_loop ks d (next_kpos ks kpos) cs"
    by (simp add: fpe_unrecognized Let_def) (simp add: fpe_recognized_def)
next
  assume a: "\<not> skin_recognized d u"
  then have "\<not> is_separator u" by (simp add: skin_recognized_def)
  then show "skin_loop ks d kpos (u # cs) = u # skin_loop ks d (next_kpos ks kpos) cs"
    using skin_unrecognized[OF a] by (simp add: skin_loop_eq del: skin_loop.simps(2))
next
  assume a: "\<not> jp_recognized u"
  show "jp_loop ks d kpos (u # cs) = u # jp_loop ks d (next_kpos ks kpos) cs"
    using jp_unrecognized[OF a] by (simp add: jp_loop_eq del: jp_loop.simps(2))
qed

theorem unsupported_scalar_consumes_key_byte_witness:
  "\<not> fpe_recognized 0x40 \<and> \<not> skin_recognized 1 0x40 \<and> \<not> jp_recognized 0x40
   \<and> next_kpos KS_PW_CORE 0 = 1
   \<and> fpe_loop KS_PW_CORE 1 0 AT_A = 0x40 # fpe_loop KS_PW_CORE 1 (next_kpos KS_PW_CORE 0) [0x61]
   \<and> skin_loop KS_PW_CORE 1 0 AT_A = 0x40 # skin_loop KS_PW_CORE 1 (next_kpos KS_PW_CORE 0) [0x61]
   \<and> jp_loop KS_PW_CORE 1 0 AT_A = 0x40 # jp_loop KS_PW_CORE 1 (next_kpos KS_PW_CORE 0) [0x61]"
proof -
  have h1: "\<not> fpe_recognized 0x40" by code_simp
  have h2: "\<not> skin_recognized 1 0x40" by code_simp
  have h3: "\<not> jp_recognized 0x40" by code_simp
  have n: "next_kpos KS_PW_CORE 0 = 1" by code_simp
  have e: "AT_A = [0x40, 0x61]" by code_simp
  from unsupported_scalar_consumes_key_byte[of "0x40" KS_PW_CORE 1 0 "[0x61]"] h1 h2 h3 n
  show ?thesis unfolding e by blast
qed

section \<open>Token verification: the tokenising loops\<close>

lemma length_mk_from: "length (mk_from mk i ts) = length ts"
  by (induction ts arbitrary: i) auto

lemma mk_from_all: "(\<And>i t. P (mk i t)) \<Longrightarrow> list_all P (mk_from mk i ts)"
  by (induction ts arbitrary: i) auto

lemma checks_loop_toks:
  "checks_loop sep mk (checks, tok, idx) s = checks @ mk_from mk idx (toks sep tok s)"
  by (induction s arbitrary: checks tok idx) (auto simp: flush_checks_def)

lemma toks_aligned:
  "map sep s = map sep s' \<Longrightarrow> (cur = [] \<longleftrightarrow> cur' = [])
     \<Longrightarrow> length (toks sep cur s) = length (toks sep cur' s')"
proof (induction s arbitrary: s' cur cur')
  case Nil
  then show ?case by simp
next
  case (Cons c cs)
  then obtain c' cs' where s': "s' = c' # cs'" by (cases s') auto
  with Cons.prems have e: "sep c = sep c'" "map sep cs = map sep cs'" by simp_all
  show ?case
  proof (cases "sep c")
    case True
    with e Cons.prems(2) Cons.IH[OF e(2), of "[]" "[]"] show ?thesis by (simp add: s')
  next
    case False
    with e Cons.IH[OF e(2), of "cur @ [c]" "cur' @ [c']"] show ?thesis by (simp add: s')
  qed
qed

lemma attach_loop_weave:
  "idx + length (toks sep tok s) = length checks
     \<Longrightarrow> attach_loop sep checks (out, tok, idx) s = Inr (concat out @ weave sep (drop idx checks) tok s)"
proof (induction s arbitrary: out tok idx)
  case Nil
  then show ?case
    by (cases "tok = []") (auto simp: flush_attach_def hd_drop_conv_nth)
next
  case (Cons c cs)
  show ?case
  proof (cases "sep c")
    case False
    with Cons.prems Cons.IH[of idx "tok @ [c]" out] show ?thesis by simp
  next
    case True
    show ?thesis
    proof (cases "tok = []")
      case True
      with \<open>sep c\<close> Cons.prems Cons.IH[of idx "[]" "out @ [[c]]"] show ?thesis
        by (simp add: flush_attach_def)
    next
      case False
      with \<open>sep c\<close> Cons.prems have lt: "idx < length checks"
        and rest: "Suc idx + length (toks sep [] cs) = length checks" by simp_all
      from Cons.IH[OF rest, of "out @ [tok @ checks ! idx] @ [[c]]"] False \<open>sep c\<close> lt
      show ?thesis by (simp add: flush_attach_def hd_drop_conv_nth drop_Suc tl_drop)
    qed
  qed
qed

lemma strip_loop_nonsep:
  "list_all (\<lambda>c. \<not> sep c) xs
     \<Longrightarrow> strip_loop sep n (base, given, tok) (xs @ rest) = strip_loop sep n (base, given, tok @ xs) rest"
  by (induction xs arbitrary: tok) auto

lemma strip_loop_weave:
  assumes n: "0 < n"
  shows "list_all (\<lambda>x. length x = n \<and> list_all (\<lambda>c. \<not> sep c) x) chk
     \<Longrightarrow> length chk = length (toks sep cur s) \<Longrightarrow> list_all (\<lambda>c. \<not> sep c) cur
     \<Longrightarrow> strip_loop sep n (base, given, []) (weave sep chk cur s)
           = Some (concat base @ cur @ s, given @ chk)"
proof (induction s arbitrary: chk cur base given)
  case Nil
  show ?case
  proof (cases "cur = []")
    case True
    with Nil show ?thesis by (simp add: flush_strip_def)
  next
    case False
    with Nil.prems obtain x where chk: "chk = [x]" by (cases chk) auto
    with Nil.prems have x: "length x = n" "list_all (\<lambda>c. \<not> sep c) x" by simp_all
    have ns: "list_all (\<lambda>c. \<not> sep c) (cur @ x)" using Nil.prems(3) x(2) by simp
    have "strip_loop sep n (base, given, []) ((cur @ x) @ []) = strip_loop sep n (base, given, [] @ (cur @ x)) []"
      using ns by (rule strip_loop_nonsep)
    then show ?thesis using False x(1) n by (simp add: chk flush_strip_def)
  qed
next
  case (Cons c cs)
  show ?case
  proof (cases "sep c")
    case False
    with Cons.prems Cons.IH[of chk "cur @ [c]" base given] show ?thesis by simp
  next
    case True
    show ?thesis
    proof (cases "cur = []")
      case True
      with \<open>sep c\<close> Cons.prems Cons.IH[of chk "[]" "base @ [[c]]" given] show ?thesis
        by (simp add: flush_strip_def)
    next
      case False
      with \<open>sep c\<close> Cons.prems obtain x chk' where chk: "chk = x # chk'" by (cases chk) auto
      with Cons.prems have x: "length x = n" "list_all (\<lambda>c. \<not> sep c) x"
        and chk': "list_all (\<lambda>x. length x = n \<and> list_all (\<lambda>c. \<not> sep c) x) chk'" by simp_all
      from Cons.prems(2) False \<open>sep c\<close> have len': "length chk' = length (toks sep [] cs)"
        by (simp add: chk)
      have ns: "list_all (\<lambda>c. \<not> sep c) (cur @ x)" using Cons.prems(3) x(2) by simp
      have w: "weave sep chk cur (c # cs) = (cur @ x) @ c # weave sep chk' [] cs"
        using False \<open>sep c\<close> by (simp add: chk)
      have "strip_loop sep n (base, given, []) (weave sep chk cur (c # cs))
            = strip_loop sep n (base, given, [] @ (cur @ x)) (c # weave sep chk' [] cs)"
        unfolding w using ns by (rule strip_loop_nonsep)
      also have "\<dots> = strip_loop sep n (base @ [cur] @ [[c]], given @ [x], []) (weave sep chk' [] cs)"
        using False \<open>sep c\<close> x(1) n by (simp add: flush_strip_def)
      also have "\<dots> = Some (concat (base @ [cur] @ [[c]]) @ [] @ cs, (given @ [x]) @ chk')"
        by (rule Cons.IH[OF chk' len']) simp
      finally show ?thesis by (simp add: chk)
    qed
  qed
qed

lemma attach_then_strip:
  assumes "0 < n" and "list_all (\<lambda>x. length x = n \<and> list_all (\<lambda>c. \<not> sep c) x) checks"
    and "length checks = length (toks sep [] cipher)"
  shows "\<exists>out. attach_checks_with sep cipher checks = Inr out
           \<and> strip_loop sep n ([], [], []) out = Some (cipher, checks)"
proof -
  have a: "attach_checks_with sep cipher checks = Inr (weave sep checks [] cipher)"
    using attach_loop_weave[of 0 sep "[]" cipher checks "[]"] assms(3)
    by (simp add: attach_checks_with_def)
  have "strip_loop sep n ([], [], []) (weave sep checks [] cipher) = Some (cipher, checks)"
    using strip_loop_weave[OF assms(1,2) assms(3), of "[]" "[]"] by simp
  with a show ?thesis by blast
qed

lemma attach_ok:
  assumes "length checks = length (toks sep [] cipher)"
  shows "\<exists>out. attach_checks_with sep cipher checks = Inr out"
  using attach_loop_weave[of 0 sep "[]" cipher checks "[]"] assms
  by (simp add: attach_checks_with_def)

section \<open>Token verification: encoders and decoders\<close>

lemma wordy_not_token_sep: "wordy x \<Longrightarrow> \<not> is_token_sep x"
  by (auto simp: wordy_def is_token_sep_def is_digit_def is_ascii_upper_def is_ascii_lower_def)

lemma fpe_char_token_sep: "is_token_sep (fpe_char c s) = is_token_sep c"
  using fpe_char_wordy[of c s] wordy_not_token_sep by auto

lemma fpe_loop_token_sep: "map is_token_sep (fpe_loop ks d k s) = map is_token_sep s"
  by (induction s arbitrary: k) (simp_all add: Let_def fpe_char_token_sep)

lemma transform_fpe_token_sep:
  "map is_token_sep (transform_name_name_like_fpe K s p i salt d) = map is_token_sep s"
  by (simp add: transform_name_name_like_fpe_def Let_def fpe_loop_token_sep)

lemma skin_loop_token_sep: "map is_token_sep_jp (skin_loop ks 1 k s) = map is_token_sep_jp s"
  by (induction s arbitrary: k) (simp_all add: skin_loop_eq skin_enc_token_sep del: skin_loop.simps(2))

lemma skin_transform_token_sep:
  "map is_token_sep_jp (skin_transform K s p i salt 1) = map is_token_sep_jp s"
  by (simp add: skin_transform_def Let_def skin_loop_token_sep)

lemma jp_loop_token_sep: "map is_token_sep_jp (jp_loop ks 1 k s) = map is_token_sep_jp s"
  by (induction s arbitrary: k) (simp_all add: jp_loop_eq jp_char_token_sep del: jp_loop.simps(2))

lemma jp_native_transform_token_sep:
  "map is_token_sep_jp (jp_native_transform K s p i salt 1) = map is_token_sep_jp s"
  by (simp add: jp_native_transform_def Let_def jp_loop_token_sep)

lemma build_checks_length:
  "length (build_plain_token_checks H plain p salt i n) = length (toks is_token_sep [] plain)"
  by (simp add: build_plain_token_checks_def checks_loop_toks length_mk_from)

lemma build_checks_jp_length:
  "length (build_plain_token_checks_jp H plain p salt i n dm nf) = length (toks is_token_sep_jp [] plain)"
  by (simp add: build_plain_token_checks_jp_def checks_loop_toks length_mk_from)

lemma CONSET_nth:
  assumes "0 \<le> b"
  shows "is_ascii_lower (CONSET ! nat (b mod int (length CONSET)))"
proof -
  have l: "int (length CONSET) = 21" by (simp add: CONSET_def ascii_def)
  have "0 \<le> b mod 21" "b mod 21 < 21" by simp_all
  then have "nat (b mod 21) < length CONSET" using l by linarith
  then have "CONSET ! nat (b mod 21) \<in> set CONSET" by (rule nth_mem)
  then show ?thesis unfolding l by (auto simp: CONSET_def ascii_def is_ascii_lower_def)
qed

lemma check_char_not_sep:
  assumes "0 \<le> b"
  shows "\<not> is_token_sep (nat (48 + b mod 10))"
    "\<not> is_token_sep (CONSET ! nat (b mod int (length CONSET)))"
    "\<not> is_token_sep (str_upper (CONSET ! nat (b mod int (length CONSET))))"
proof -
  have "0 \<le> b mod 10" "b mod 10 < 10" by simp_all
  then have "48 \<le> nat (48 + b mod 10)" "nat (48 + b mod 10) \<le> 57" by linarith+
  then show "\<not> is_token_sep (nat (48 + b mod 10))" by (auto simp: is_token_sep_def)
  from CONSET_nth[OF assms]
  show "\<not> is_token_sep (CONSET ! nat (b mod int (length CONSET)))"
    "\<not> is_token_sep (str_upper (CONSET ! nat (b mod int (length CONSET))))"
    by (auto simp: is_token_sep_def is_ascii_lower_def str_upper_def)
qed

lemma make_token_check_props:
  "length (make_token_check t knd mac n) = nat (max 1 n)
   \<and> list_all (\<lambda>c. \<not> is_token_sep c) (make_token_check t knd mac n)"
  by (simp add: make_token_check_def Let_def list_all_iff check_char_not_sep)

lemma build_checks_props:
  "list_all (\<lambda>x. length x = nat (max 1 n) \<and> list_all (\<lambda>c. \<not> is_token_sep c) x)
     (build_plain_token_checks H plain p salt i n)"
  unfolding build_plain_token_checks_def checks_loop_toks append_Nil
  by (rule mk_from_all) (simp add: token_check_def Let_def make_token_check_props)

lemma zip_same_no_diff: "\<not> list_ex (\<lambda>(a, b). a \<noteq> b) (zip xs xs)"
  by (induction xs) auto

text \<open>
  C4. PhonoShift KT round-trips: for every plaintext, password, salt, iteration count,
  check length and punctuation flag, \<^const>\<open>rot500k_token_tagged\<close> returns a tagged
  text, and \<^const>\<open>rot500k_token_tagged_decrypt\<close> of it, with the same parameters, is
  \<open>(ok = True, val = plaintext)\<close>.
\<close>

theorem token_tagged_roundtrip:
  "\<exists>tagged. rot500k_token_tagged K H t p i s N shift_punct = Inr tagged
     \<and> rot500k_token_tagged_decrypt K H tagged p i s N shift_punct = VerifiedResult True t"
proof -
  let ?cipher = "transform_name_name_like_fpe K t p i s 1"
  let ?checks = "build_plain_token_checks H t p s i N"
  have len: "length ?checks = length (toks is_token_sep [] ?cipher)"
    unfolding build_checks_length
    by (rule toks_aligned) (simp_all add: transform_fpe_token_sep)
  have n: "0 < nat (max 1 N)" by simp
  from attach_then_strip[OF n build_checks_props len] obtain out where
    out: "attach_checks_to_cipher ?cipher ?checks = Inr out"
      "strip_checks_from_tagged out N = Some (?cipher, ?checks)"
    by (auto simp: attach_checks_to_cipher_def strip_checks_from_tagged_def strip_checks_with_def Let_def)
  let ?tagged = "if shift_punct then punct_shift_apply K out p i s 1 else out"
  have e: "rot500k_token_tagged K H t p i s N shift_punct = Inr ?tagged"
    by (simp add: rot500k_token_tagged_def Let_def out(1))
  have undo: "(if shift_punct then punct_shift_apply K ?tagged p i s (- 1) else ?tagged) = out"
    by (simp add: punct_shift_apply_inverse)
  have d: "rot500k_token_tagged_decrypt K H ?tagged p i s N shift_punct = VerifiedResult True t"
    unfolding rot500k_token_tagged_decrypt_def Let_def undo out(2)
    by (simp add: transform_fpe_inverse zip_same_no_diff)
  from e d show ?thesis by blast
qed

theorem token_tagged_roundtrip_witness:
  "rot500k_token_tagged sample_pbkdf2 sample_hmac HELLO_WORLD PW 1000 SALT 2 True
     = Inr HELLO_WORLD_TAGGED
   \<and> rot500k_token_tagged_decrypt sample_pbkdf2 sample_hmac HELLO_WORLD_TAGGED PW 1000 SALT 2 True
     = VerifiedResult True HELLO_WORLD"
proof -
  have e: "rot500k_token_tagged sample_pbkdf2 sample_hmac HELLO_WORLD PW 1000 SALT 2 True
             = Inr HELLO_WORLD_TAGGED"
    by code_simp
  from token_tagged_roundtrip[of sample_pbkdf2 sample_hmac HELLO_WORLD PW 1000 SALT 2 True] e
  show ?thesis by auto
qed

text \<open>
  C10. KT encoding never raises: the family transforms keep every token separator and map
  every other scalar to a scalar that is not a token separator, so the ciphertext has as
  many tokens as the plaintext has checks; \<^const>\<open>attach_checks_to_cipher\<close> reaches
  neither error, and the three KT encoders return a text.
\<close>

theorem token_encoders_never_raise:
  "(\<exists>out. attach_checks_to_cipher (transform_name_name_like_fpe K t p i s 1)
             (build_plain_token_checks H t p s i N) = Inr out)
   \<and> (\<exists>out. rot500k_token_tagged K H t p i s N shift_punct = Inr out)
   \<and> (\<exists>out. kanashift_skin_token_encrypt K H t p i s N shift_punct = Inr out)
   \<and> (\<exists>out. kanashift_jp_token_encrypt K H t p i s N shift_punct = Inr out)"
proof -
  have a: "\<exists>out. attach_checks_to_cipher (transform_name_name_like_fpe K t p i s 1)
             (build_plain_token_checks H t p s i N) = Inr out"
    unfolding attach_checks_to_cipher_def
    by (rule attach_ok, unfold build_checks_length, rule toks_aligned)
       (simp_all add: transform_fpe_token_sep)
  have b: "\<exists>out. attach_checks_to_cipher_jp (skin_transform K t p i s 1)
             (build_plain_token_checks_jp H t p s i N dm nf) = Inr out" for dm nf
    unfolding attach_checks_to_cipher_jp_def
    by (rule attach_ok, unfold build_checks_jp_length, rule toks_aligned)
       (simp_all add: skin_transform_token_sep)
  have c: "\<exists>out. attach_checks_to_cipher_jp (jp_native_transform K t p i s 1)
             (build_plain_token_checks_jp H t p s i N dm nf) = Inr out" for dm nf
    unfolding attach_checks_to_cipher_jp_def
    by (rule attach_ok, unfold build_checks_jp_length, rule toks_aligned)
       (simp_all add: jp_native_transform_token_sep)
  from a have a2: "\<exists>out. rot500k_token_tagged K H t p i s N shift_punct = Inr out"
    by (auto simp: rot500k_token_tagged_def Let_def)
  from b[of TOK_DOMAIN_SKIN "Some norm_token_skin"]
  have b2: "\<exists>out. kanashift_skin_token_encrypt K H t p i s N shift_punct = Inr out"
    by (auto simp: kanashift_skin_token_encrypt_def family_token_tagged_encrypt_def Let_def)
  from c[of TOK_DOMAIN_JP "Some norm_token_identity"]
  have c2: "\<exists>out. kanashift_jp_token_encrypt K H t p i s N shift_punct = Inr out"
    by (auto simp: kanashift_jp_token_encrypt_def family_token_tagged_encrypt_def Let_def)
  from a a2 b2 c2 show ?thesis by blast
qed

theorem token_encoders_never_raise_witness:
  "(\<exists>out. attach_checks_to_cipher (transform_name_name_like_fpe sample_pbkdf2 HELLO_WORLD PW 1000 SALT 1)
             (build_plain_token_checks sample_hmac HELLO_WORLD PW SALT 1000 2) = Inr out)
   \<and> (\<exists>out. rot500k_token_tagged sample_pbkdf2 sample_hmac HELLO_WORLD PW 1000 SALT 2 True = Inr out)
   \<and> (\<exists>out. kanashift_skin_token_encrypt sample_pbkdf2 sample_hmac HELLO_WORLD PW 1000 SALT 2 True = Inr out)
   \<and> (\<exists>out. kanashift_jp_token_encrypt sample_pbkdf2 sample_hmac HELLO_WORLD PW 1000 SALT 2 True = Inr out)"
  by (rule token_encoders_never_raise)

lemma family_decrypt_failure:
  "\<not> ok (family_token_tagged_decrypt K H tagged p i s N sp f dm nf)
     \<Longrightarrow> family_token_tagged_decrypt K H tagged p i s N sp f dm nf = VerifiedResult False []"
  by (auto simp: family_token_tagged_decrypt_def VerifiedResult_def Let_def split: option.splits if_splits)

lemma token_decrypt_failure:
  "\<not> ok (rot500k_token_tagged_decrypt K H tagged p i s N sp)
     \<Longrightarrow> rot500k_token_tagged_decrypt K H tagged p i s N sp = VerifiedResult False []"
  by (auto simp: rot500k_token_tagged_decrypt_def VerifiedResult_def Let_def split: option.splits if_splits)

lemma prefix_decrypt_failure:
  "\<not> ok (rot500k_prefix_tagged_decrypt K H tagged p i s sp)
     \<Longrightarrow> rot500k_prefix_tagged_decrypt K H tagged p i s sp = VerifiedResult False []"
  by (auto simp: rot500k_prefix_tagged_decrypt_def VerifiedResult_def Let_def split: option.splits if_splits)

lemma kv_decrypt_failure:
  "\<not> ok (rot500kv_safe_decrypt K H tagged p i s N sp)
     \<Longrightarrow> rot500kv_safe_decrypt K H tagged p i s N sp = VerifiedResult False []"
  by (auto simp: rot500kv_safe_decrypt_def VerifiedResult_def Let_def split: if_splits)

text \<open>
  C9. Each verified decoder returns the empty string whenever \<open>ok\<close> is false: a
  failed verification is exactly \<open>(ok = False, val = [])\<close>.
\<close>

theorem verified_decoders_empty_on_failure:
  "(\<not> ok (rot500k_token_tagged_decrypt K H x p i s N sp) \<longrightarrow>
      val (rot500k_token_tagged_decrypt K H x p i s N sp) = []
      \<and> rot500k_token_tagged_decrypt K H x p i s N sp = VerifiedResult False [])
   \<and> (\<not> ok (rot500k_prefix_tagged_decrypt K H x p i s sp) \<longrightarrow>
      val (rot500k_prefix_tagged_decrypt K H x p i s sp) = []
      \<and> rot500k_prefix_tagged_decrypt K H x p i s sp = VerifiedResult False [])
   \<and> (\<not> ok (rot500kv_decrypt K H x p i s N sp) \<longrightarrow>
      val (rot500kv_decrypt K H x p i s N sp) = []
      \<and> rot500kv_decrypt K H x p i s N sp = VerifiedResult False [])
   \<and> (\<not> ok (kanashift_skin_token_decrypt K H x p i s N sp) \<longrightarrow>
      val (kanashift_skin_token_decrypt K H x p i s N sp) = []
      \<and> kanashift_skin_token_decrypt K H x p i s N sp = VerifiedResult False [])
   \<and> (\<not> ok (kanashift_jp_token_decrypt K H x p i s N sp) \<longrightarrow>
      val (kanashift_jp_token_decrypt K H x p i s N sp) = []
      \<and> kanashift_jp_token_decrypt K H x p i s N sp = VerifiedResult False [])"
  using token_decrypt_failure[of K H x p i s N sp] prefix_decrypt_failure[of K H x p i s sp]
    kv_decrypt_failure[of K H x p i s N sp]
    family_decrypt_failure[of K H x p i s N sp "skin_transform K" TOK_DOMAIN_SKIN "Some norm_token_skin"]
    family_decrypt_failure[of K H x p i s N sp "jp_native_transform K" TOK_DOMAIN_JP "Some norm_token_identity"]
  by (auto simp: rot500kv_decrypt_def kanashift_skin_token_decrypt_def kanashift_jp_token_decrypt_def
      VerifiedResult_def)

theorem verified_decoders_empty_on_failure_witness:
  "\<not> ok (rot500k_token_tagged_decrypt sample_pbkdf2 sample_hmac [0x61] PW 1000 SALT 1 True)
   \<and> val (rot500k_token_tagged_decrypt sample_pbkdf2 sample_hmac [0x61] PW 1000 SALT 1 True) = []
   \<and> \<not> ok (rot500k_prefix_tagged_decrypt sample_pbkdf2 sample_hmac [0x61] PW 1000 SALT True)
   \<and> val (rot500k_prefix_tagged_decrypt sample_pbkdf2 sample_hmac [0x61] PW 1000 SALT True) = []
   \<and> \<not> ok (rot500kv_decrypt sample_pbkdf2 sample_hmac [0x61] PW 1000 SALT 1 True)
   \<and> val (rot500kv_decrypt sample_pbkdf2 sample_hmac [0x61] PW 1000 SALT 1 True) = []
   \<and> \<not> ok (kanashift_skin_token_decrypt sample_pbkdf2 sample_hmac [0x61] PW 1000 SALT 1 True)
   \<and> val (kanashift_skin_token_decrypt sample_pbkdf2 sample_hmac [0x61] PW 1000 SALT 1 True) = []
   \<and> \<not> ok (kanashift_jp_token_decrypt sample_pbkdf2 sample_hmac [0x61] PW 1000 SALT 1 True)
   \<and> val (kanashift_jp_token_decrypt sample_pbkdf2 sample_hmac [0x61] PW 1000 SALT 1 True) = []"
proof -
  have h1: "\<not> ok (rot500k_token_tagged_decrypt sample_pbkdf2 sample_hmac [0x61] PW 1000 SALT 1 True)"
    by code_simp
  have h2: "\<not> ok (rot500k_prefix_tagged_decrypt sample_pbkdf2 sample_hmac [0x61] PW 1000 SALT True)"
    by code_simp
  have h3: "\<not> ok (rot500kv_decrypt sample_pbkdf2 sample_hmac [0x61] PW 1000 SALT 1 True)"
    by code_simp
  have h4: "\<not> ok (kanashift_skin_token_decrypt sample_pbkdf2 sample_hmac [0x61] PW 1000 SALT 1 True)"
    by code_simp
  have h5: "\<not> ok (kanashift_jp_token_decrypt sample_pbkdf2 sample_hmac [0x61] PW 1000 SALT 1 True)"
    by code_simp
  from verified_decoders_empty_on_failure[of sample_pbkdf2 sample_hmac "[0x61]" PW 1000 SALT 1 True]
    h1 h2 h3 h4 h5
  show ?thesis by blast
qed

end
